theory Spec2Isabelle
  imports Main "HOL-Library.Word" "HOL-Library.Multiset"
begin

unbundle bit_operations_syntax

section \<open>Machine integers and the helper templates\<close>

text \<open>
  Stored data (struct fields, image bytes, assignment words, cache entries) has the width
  of its C++ type: \<open>uint8_t\<close> is \<open>8 word\<close>, \<open>uint16_t\<close> and \<open>int16_t\<close> are
  \<open>16 word\<close> (read with \<open>uint\<close> or \<open>sint\<close>), \<open>uint32_t\<close> is \<open>32 word\<close>.
  Local arithmetic of the source happens in \<open>int\<close> after integral promotion; it is
  modelled on HOL's \<open>int\<close>, and every narrowing conversion of the source is written
  out by one of the casts below.
\<close>

definition i16 :: "int \<Rightarrow> int" where
  "i16 v = (v + 32768) mod 65536 - 32768"


definition i32 :: "int \<Rightarrow> int" where
  "i32 v = (v + 2147483648) mod 4294967296 - 2147483648"

definition u32 :: "int \<Rightarrow> int" where
  "u32 v = v mod 4294967296"

text \<open>C++ integer division truncates towards zero.\<close>

definition c_div :: "int \<Rightarrow> int \<Rightarrow> int" where
  "c_div a b = sgn a * sgn b * (\<bar>a\<bar> div \<bar>b\<bar>)"

text \<open>
  Modelled from the spec: the header \<open>fast-slic-common-impl.hpp\<close> with the templates
  \<open>my_max\<close>, \<open>my_min\<close>, \<open>fast_abs\<close>, \<open>ceil_int\<close> and \<open>round_int\<close> is missing.
  The spec uses them as maximum, minimum, absolute value (the \<open>|\<Delta>r|\<close> of the L1
  distances), the number of cells of size \<open>S\<close> that cover an extent, and the integer mean
  "rounding to nearest, ties away from zero".
\<close>

definition my_max :: "int \<Rightarrow> int \<Rightarrow> int" where
  "my_max a b = (if a > b then a else b)"

definition my_min :: "int \<Rightarrow> int \<Rightarrow> int" where
  "my_min a b = (if a < b then a else b)"

definition fast_abs :: "int \<Rightarrow> int" where
  "fast_abs n = (if n < 0 then - n else n)"

definition ceil_int :: "int \<Rightarrow> int \<Rightarrow> int" where
  "ceil_int numer denom = c_div (numer + denom - 1) denom"

definition round_int :: "int \<Rightarrow> int \<Rightarrow> int" where
  "round_int numer denom = c_div (numer + c_div denom 2) denom"

section \<open>Data model\<close>

text \<open>
  Modelled from the spec: the header \<open>fast-slic-common.h\<close> that declares \<open>Cluster\<close> and
  \<open>Connectivity\<close> is missing. The spec gives \<open>number\<close> as a 16-bit identifier, \<open>y\<close>
  and \<open>x\<close> as 16-bit signed coordinates, \<open>r\<close>, \<open>g\<close>, \<open>b\<close> as 8-bit colours and
  \<open>num_members\<close> as a 32-bit count (the source compares it with \<open>1u\<close>). The one-letter
  fields carry the prefix \<open>cl_\<close>.
\<close>

record Cluster =
  cl_y :: "16 word"
  cl_x :: "16 word"
  cl_r :: "8 word"
  cl_g :: "8 word"
  cl_b :: "8 word"
  number :: "16 word"
  num_members :: "32 word"

text \<open>
  Modelled from the spec: \<open>Connectivity\<close> (declared in the missing
  \<open>fast-slic-common.h\<close>) has the layout
  \<open>{int num_nodes; int num_neighbors[num_nodes]; uint32 *neighbors[num_nodes]}\<close>.
  The counts are never negative in the source and are kept as \<open>nat\<close>.
\<close>

record Connectivity =
  num_nodes :: int
  num_neighbors :: "nat list"
  neighbors :: "32 word list list"

section \<open>Assignment kernel: the candidate word\<close>

text \<open>
  \<open>get_assignment_value\<close>, lines 8 to 13. The three absolute differences are taken in
  \<open>int16_t\<close>; their sum is converted to \<open>uint32_t\<close> and shifted; the assignment to the
  \<open>uint16_t color_dist\<close> keeps the low 16 bits. \<open>color_dist + spatial_dist\<close> is an
  \<open>int\<close> sum converted to \<open>uint32_t\<close>, and the shift by 16 drops everything above
  bit 15 of it. The source's \<open>image\<close> is \<open>img\<close> here.
\<close>

definition color_l1 :: "Cluster \<Rightarrow> 8 word list \<Rightarrow> nat \<Rightarrow> int" where
  "color_l1 cluster img base_index =
    (let img_base_index = 3 * base_index;
         r = img ! img_base_index;
         g = img ! (img_base_index + 1);
         b = img ! (img_base_index + 2)
     in fast_abs (i16 (uint r - i16 (uint (cl_r cluster))))
      + fast_abs (i16 (uint g - i16 (uint (cl_g cluster))))
      + fast_abs (i16 (uint b - i16 (uint (cl_b cluster)))))"

definition get_assignment_value ::
  "Cluster \<Rightarrow> 8 word list \<Rightarrow> nat \<Rightarrow> 16 word \<Rightarrow> nat \<Rightarrow> 32 word" where
  "get_assignment_value cluster img base_index spatial_dist quantize_level =
    (let color_dist :: 16 word =
           ucast (push_bit quantize_level
                    (word_of_int (color_l1 cluster img base_index) :: 32 word))
     in push_bit 16 (word_of_int (uint color_dist + uint spatial_dist) :: 32 word)
        + ucast (number cluster))"

text \<open>
  The score the spec asks for, in the spec's words: the shifted colour cost and the spatial
  cost are each clamped to \<open>0xFFFF\<close>, and so is their sum.
\<close>

definition saturated_score :: "int \<Rightarrow> nat \<Rightarrow> int \<Rightarrow> int" where
  "saturated_score l1 quantize_level spatial_cost =
     min 65535 (min 65535 (l1 * 2 ^ quantize_level) + min 65535 spatial_cost)"

text \<open>
  The 16-bit score the candidate word carries: read as a number, the word is this score
  times \<open>2^16\<close> plus the cluster number.
\<close>

definition wrapped_score :: "Cluster \<Rightarrow> 8 word list \<Rightarrow> nat \<Rightarrow> 16 word \<Rightarrow> nat \<Rightarrow> int" where
  "wrapped_score c img b sd q = ((color_l1 c img b * 2 ^ q) mod 65536 + uint sd) mod 65536"

definition black :: Cluster where
  "black = \<lparr>cl_y = 0, cl_x = 0, cl_r = 0, cl_g = 0, cl_b = 0, number = 3, num_members = 0\<rparr>"

section \<open>Assignment kernel: the loops\<close>






definition manhattan :: "Cluster \<Rightarrow> nat \<Rightarrow> nat \<Rightarrow> nat" where
  "manhattan c i j = nat (\<bar>int i - sint (cl_y c)\<bar> + \<bar>int j - sint (cl_x c)\<bar>)"


definition code_score :: "8 word list \<Rightarrow> nat \<Rightarrow> nat \<Rightarrow> 16 word list \<Rightarrow> Cluster \<Rightarrow> nat \<Rightarrow> nat \<Rightarrow> int" where
  "code_score img W quantize_level cache c i j =
     ((color_l1 c img (W * i + j) * 2 ^ quantize_level) mod 65536
        + uint (cache ! manhattan c i j)) mod 65536"


subsection \<open>The kernel as a sequence of relaxations\<close>












section \<open>Centroid KNN builder\<close>

text \<open>
  \<open>(int)sqrt(n)\<close> of a non-negative \<open>int\<close>: the integer square root.
\<close>

fun isqrt :: "nat \<Rightarrow> nat" where
  "isqrt n =
    (if n = 0 then 0
     else (let r = 2 * isqrt (n div 4) in if (r + 1) * (r + 1) \<le> n then r + 1 else r))"

declare isqrt.simps [simp del]

text \<open>
  The grid \<open>s_cells\<close> holds pointers into the cluster array; a pointer \<open>clusters + i\<close>
  is the index \<open>i\<close> here, so pointer equality and pointer order are equality and order
  of indices.
\<close>

definition cell_index :: "Cluster \<Rightarrow> int \<Rightarrow> int \<Rightarrow> nat" where
  "cell_index cluster S nw =
     nat (c_div (sint (cl_y cluster)) S * nw + c_div (sint (cl_x cluster)) S)"

definition fill_cells :: "Cluster list \<Rightarrow> int \<Rightarrow> int \<Rightarrow> nat \<Rightarrow> nat list list \<Rightarrow> nat list list" where
  "fill_cells clusters S nw i s_cells =
     (let idx = cell_index (clusters ! i) S nw
      in s_cells[idx := s_cells ! idx @ [i]])"

text \<open>
  The heap is a \<open>std::vector\<close> of pairs (distance, pointer) under \<open>std::push_heap\<close> and
  \<open>std::pop_heap\<close> with the pairs' lexicographic order. The C++ standard fixes what
  these do to the contents (\<open>front()\<close> is a greatest element, \<open>pop_heap\<close> moves it to
  the back) and leaves the layout of the rest open. The model keeps the contents in
  descending order: \<open>hd\<close> is \<open>front()\<close>, \<open>tl\<close> is \<open>pop_heap\<close> followed by
  \<open>pop_back\<close>.
\<close>

definition pair_le :: "int \<times> nat \<Rightarrow> int \<times> nat \<Rightarrow> bool" where
  "pair_le a b = (fst a < fst b \<or> (fst a = fst b \<and> snd a \<le> snd b))"

fun push_heap :: "int \<times> nat \<Rightarrow> (int \<times> nat) list \<Rightarrow> (int \<times> nat) list" where
  "push_heap e [] = [e]"
| "push_heap e (h # hs) = (if pair_le h e then e # h # hs else h # push_heap e hs)"

fun pop_excess :: "nat \<Rightarrow> (int \<times> nat) list \<Rightarrow> (int \<times> nat) list" where
  "pop_excess num_neighbors_req [] = []"
| "pop_excess num_neighbors_req (h # hs) =
     (if length (h # hs) > num_neighbors_req then pop_excess num_neighbors_req hs else h # hs)"

text \<open>The body of the innermost loop, lines 347 to 356.\<close>

definition knn_visit :: "Cluster list \<Rightarrow> nat \<Rightarrow> nat \<Rightarrow> nat \<Rightarrow> (int \<times> nat) list \<Rightarrow> (int \<times> nat) list" where
  "knn_visit clusters num_neighbors_req i around heap =
    (if around = i then heap
     else
       (let cluster = clusters ! i;
            cluster_around = clusters ! around;
            distance = fast_abs (sint (cl_x cluster_around) - sint (cl_x cluster))
                     + fast_abs (sint (cl_y cluster_around) - sint (cl_y cluster))
        in if heap \<noteq> [] \<and> fst (hd heap) \<le> distance then heap
           else pop_excess num_neighbors_req (push_heap (distance, around) heap)))"

text \<open>The two loops over the cells around the query, lines 341 to 359.\<close>

definition knn_query :: "Cluster list \<Rightarrow> int \<Rightarrow> int \<Rightarrow> int \<Rightarrow> nat \<Rightarrow> nat list list \<Rightarrow> nat \<Rightarrow> (int \<times> nat) list" where
  "knn_query clusters S nh nw num_neighbors_req s_cells i =
    (let cluster = clusters ! i;
         cell_center_x = c_div (sint (cl_x cluster)) S;
         cell_center_y = c_div (sint (cl_y cluster)) S
     in fold (\<lambda>cy. fold (\<lambda>cx. fold (knn_visit clusters num_neighbors_req i)
                                     (s_cells ! nat (cy * nw + cx)))
                          [my_max (cell_center_x - 3) 0 .. my_min nw (cell_center_x + 3) - 1])
             [my_max (cell_center_y - 3) 0 .. my_min nh (cell_center_y + 3) - 1]
             [])"

definition fast_slic_knn_connectivity :: "int \<Rightarrow> int \<Rightarrow> int \<Rightarrow> Cluster list \<Rightarrow> nat \<Rightarrow> Connectivity" where
  "fast_slic_knn_connectivity H W K clusters num_neighbors_req =
    (let S = my_max (int (isqrt (nat (c_div (i32 (H * W)) K)))) 1;
         nh = ceil_int H S;
         nw = ceil_int W S;
         s_cells = fold (fill_cells clusters S nw) [0..<nat K] (replicate (nat (nh * nw)) []);
         heaps = map (knn_query clusters S nh nw num_neighbors_req s_cells) [0..<nat K]
     in \<lparr>num_nodes = K,
         num_neighbors = map length heaps,
         neighbors = map (map (\<lambda>e. ucast (number (clusters ! snd e)))) heaps\<rparr>)"

text \<open>
  What the source takes for granted about its input: positive dimensions and every
  centroid inside the image (otherwise line 329 writes outside \<open>s_cells\<close>).
\<close>

definition knn_pre :: "int \<Rightarrow> int \<Rightarrow> int \<Rightarrow> Cluster list \<Rightarrow> bool" where
  "knn_pre H W K clusters =
    (0 < H \<and> 0 < W \<and> 0 < K \<and> H * W < 2147483648 \<and> int (length clusters) = K \<and>
     list_all (\<lambda>c. 0 \<le> sint (cl_y c) \<and> sint (cl_y c) < H \<and> 0 \<le> sint (cl_x c) \<and> sint (cl_x c) < W)
       clusters)"

definition centroid :: "int \<Rightarrow> int \<Rightarrow> nat \<Rightarrow> Cluster" where
  "centroid cy cx k =
     \<lparr>cl_y = word_of_int cy, cl_x = word_of_int cx, cl_r = 0, cl_g = 0, cl_b = 0,
      number = word_of_nat k, num_members = 0\<rparr>"

text \<open>Nine centroids on a regular 3 by 3 grid of spacing 2 in a 6 by 6 image.\<close>

definition grid9 :: "Cluster list" where
  "grid9 = [centroid 1 1 0, centroid 1 3 1, centroid 1 5 2,
            centroid 3 1 3, centroid 3 3 4, centroid 3 5 5,
            centroid 5 1 6, centroid 5 3 7, centroid 5 5 8]"

text \<open>Two centroids in a 1 by 8 image, in the cells 0 and 3 of a row of four cells.\<close>

definition row2 :: "Cluster list" where
  "row2 = [centroid 0 0 0, centroid 0 6 1]"

text \<open>
  Invariants of the grid and of the heap of query \<open>i\<close>. The heap stays in descending
  order, so that its head is a greatest element, as \<open>front()\<close> of a \<open>std\<close> max-heap is.
\<close>

definition descending :: "(int \<times> nat) list \<Rightarrow> bool" where
  "descending heap = sorted_wrt (\<lambda>a b. pair_le b a) heap"

definition heap_ok :: "nat \<Rightarrow> nat \<Rightarrow> (int \<times> nat) list \<Rightarrow> bool" where
  "heap_ok K i heap = (\<forall>e \<in> set heap. snd e \<noteq> i \<and> snd e < K)"

definition cells_ok :: "nat \<Rightarrow> nat list list \<Rightarrow> bool" where
  "cells_ok K s_cells = (\<forall>cell \<in> set s_cells. \<forall>a \<in> set cell. a < K)"

section \<open>Pixel adjacency builder\<close>







text \<open>
  The label image the builder expects: \<open>H * W\<close> words, each a cluster index or the
  sentinel, with \<open>K\<close> at most 65535 as in the data model.
\<close>

definition labels_ok :: "nat \<Rightarrow> nat \<Rightarrow> nat \<Rightarrow> 32 word list \<Rightarrow> bool" where
  "labels_ok H W K assignment =
    (K \<le> 65535 \<and> length assignment = H * W \<and>
     list_all (\<lambda>l. unat l < K \<or> l = 0xFFFF) assignment)"



subsection \<open>Invariants of the adjacency builder\<close>











section \<open>Update kernel\<close>

text \<open>
  \<open>slic_update_clusters\<close>, lines 135 to 207. Modelled from the spec: the typedef
  \<open>cluster_no_t\<close> is missing; the label is the low 16 bits of the assignment word.
  The accumulators are \<open>int\<close>, reduced to 32 bits after every addition.

  The parallel region gives every pixel \<open>(i, j)\<close> to exactly one worker. A worker adds
  its pixels to private arrays that start at zero (lines 151 to 174) and then adds them
  to the shared totals inside the critical section (lines 176 to 184). The model takes
  the workers' shares as the list \<open>workers\<close>, in the order in which the workers enter the
  critical section; one worker with the share \<open>List.product [0..<H] [0..<W]\<close> is the
  sequential run of the two loops.
\<close>

text \<open>\<open>a[q] += v\<close> on an array of \<open>int\<close>.\<close>

definition add_at :: "int list \<Rightarrow> nat \<Rightarrow> int \<Rightarrow> int list" where
  "add_at a q v = a[q := i32 (a ! q + v)]"

definition update_accumulate ::
  "nat \<Rightarrow> 8 word list \<Rightarrow> 32 word list \<Rightarrow> nat \<times> nat \<Rightarrow> int list \<times> int list
     \<Rightarrow> int list \<times> int list" where
  "update_accumulate W img assignment p st =
    (case st of (local_num_cluster_members, local_acc_vec) \<Rightarrow>
      (let i = fst p; j = snd p;
           base_index = W * i + j;
           img_base_index = 3 * base_index;
           cluster_no = unat (ucast (assignment ! base_index) :: 16 word)
       in if cluster_no = 0xFFFF then st
          else
           (add_at local_num_cluster_members cluster_no 1,
            add_at (add_at (add_at (add_at (add_at local_acc_vec
              (5 * cluster_no + 0) (int i))
              (5 * cluster_no + 1) (int j))
              (5 * cluster_no + 2) (uint (img ! img_base_index)))
              (5 * cluster_no + 3) (uint (img ! (img_base_index + 1))))
              (5 * cluster_no + 4) (uint (img ! (img_base_index + 2))))))"

definition worker_sums ::
  "nat \<Rightarrow> nat \<Rightarrow> 8 word list \<Rightarrow> 32 word list \<Rightarrow> (nat \<times> nat) list \<Rightarrow> int list \<times> int list" where
  "worker_sums W K img assignment share =
     fold (update_accumulate W img assignment) share (replicate K 0, replicate (K * 5) 0)"

text \<open>The critical section, lines 178 to 183.\<close>

definition merge_cluster :: "int list \<times> int list \<Rightarrow> nat \<Rightarrow> int list \<times> int list \<Rightarrow> int list \<times> int list" where
  "merge_cluster local k st =
    (case st of (num_cluster_members, cluster_acc_vec) \<Rightarrow>
      (let acc' = fold (\<lambda>dim acc. add_at acc (5 * k + dim) (snd local ! (5 * k + dim)))
                    [0..<5] cluster_acc_vec
       in (add_at num_cluster_members k (fst local ! k), acc')))"

definition merge_worker :: "nat \<Rightarrow> int list \<times> int list \<Rightarrow> int list \<times> int list \<Rightarrow> int list \<times> int list" where
  "merge_worker K local st = fold (merge_cluster local) [0..<K] st"

text \<open>The last loop, lines 190 to 204.\<close>

definition update_cluster :: "int list \<Rightarrow> int list \<Rightarrow> nat \<Rightarrow> Cluster list \<Rightarrow> Cluster list" where
  "update_cluster num_cluster_members cluster_acc_vec k clusters =
    (let num_current_members = num_cluster_members ! k;
         cluster = (clusters ! k)\<lparr>num_members := word_of_int num_current_members\<rparr>
     in if num_current_members = 0 then clusters[k := cluster]
        else clusters[k := cluster
               \<lparr>cl_y := word_of_int (round_int (cluster_acc_vec ! (5 * k + 0)) num_current_members),
                cl_x := word_of_int (round_int (cluster_acc_vec ! (5 * k + 1)) num_current_members),
                cl_r := word_of_int (round_int (cluster_acc_vec ! (5 * k + 2)) num_current_members),
                cl_g := word_of_int (round_int (cluster_acc_vec ! (5 * k + 3)) num_current_members),
                cl_b := word_of_int (round_int (cluster_acc_vec ! (5 * k + 4)) num_current_members)\<rparr>])"

definition slic_update_clusters ::
  "nat \<Rightarrow> nat \<Rightarrow> 8 word list \<Rightarrow> 32 word list \<Rightarrow> (nat \<times> nat) list list \<Rightarrow> Cluster list
     \<Rightarrow> Cluster list" where
  "slic_update_clusters W K img assignment workers clusters =
    (let totals = fold (\<lambda>share. merge_worker K (worker_sums W K img assignment share)) workers
                    (replicate K 0, replicate (K * 5) 0)
     in fold (update_cluster (fst totals) (snd totals)) [0..<K] clusters)"

text \<open>
  The members of cluster \<open>k\<close> in the label image, and the five quantities the kernel
  averages over them: row, column, red, green, blue.
\<close>

definition label16 :: "nat \<Rightarrow> 32 word list \<Rightarrow> nat \<times> nat \<Rightarrow> nat" where
  "label16 W assignment p = unat (ucast (assignment ! (W * fst p + snd p)) :: 16 word)"

definition members :: "nat \<Rightarrow> nat \<Rightarrow> 32 word list \<Rightarrow> nat \<Rightarrow> (nat \<times> nat) list" where
  "members H W assignment k =
     filter (\<lambda>p. label16 W assignment p = k) (List.product [0..<H] [0..<W])"

definition component :: "nat \<Rightarrow> 8 word list \<Rightarrow> nat \<Rightarrow> nat \<times> nat \<Rightarrow> int" where
  "component W img dim p =
     [int (fst p), int (snd p),
      uint (img ! (3 * (W * fst p + snd p))),
      uint (img ! (3 * (W * fst p + snd p) + 1)),
      uint (img ! (3 * (W * fst p + snd p) + 2))] ! dim"

definition member_total :: "nat \<Rightarrow> nat \<Rightarrow> 8 word list \<Rightarrow> 32 word list \<Rightarrow> nat \<Rightarrow> nat \<Rightarrow> int" where
  "member_total H W img assignment dim k = sum_list (map (component W img dim) (members H W assignment k))"

text \<open>
  What the kernel takes for granted: a label image of \<open>H * W\<close> words whose low 16 bits
  are a cluster index or the sentinel, an image of \<open>3 * H * W\<close> bytes, \<open>K\<close> clusters with
  \<open>K\<close> at most 65535, coordinates that fit \<open>int16_t\<close>, sums that fit \<open>int\<close>, and every
  pixel in the share of exactly one worker.
\<close>

definition update_pre ::
  "nat \<Rightarrow> nat \<Rightarrow> nat \<Rightarrow> 8 word list \<Rightarrow> 32 word list \<Rightarrow> (nat \<times> nat) list list \<Rightarrow> Cluster list \<Rightarrow> bool" where
  "update_pre H W K img assignment workers clusters =
    (K \<le> 65535 \<and> length clusters = K \<and> length assignment = H * W \<and> length img = 3 * (H * W) \<and>
     H \<le> 32767 \<and> W \<le> 32767 \<and> H * W * (H + W + 255) < 2 ^ 31 \<and>
     list_all (\<lambda>l. unat (ucast l :: 16 word) < K \<or> unat (ucast l :: 16 word) = 0xFFFF) assignment \<and>
     mset (concat workers) = mset (List.product [0..<H] [0..<W]))"

subsection \<open>Label validity and a four-pixel example\<close>

text \<open>
  \<open>label_ok\<close>: the label of one pixel is a cluster index or the sentinel. The example
  is a 2 by 2 image with two pixels of cluster 0, one of cluster 1 and one unlabelled,
  three clusters, and three workers of which one has nothing to do.
\<close>

definition label_ok :: "nat \<Rightarrow> nat \<Rightarrow> 32 word list \<Rightarrow> nat \<times> nat \<Rightarrow> bool" where
  "label_ok W K asg p = (label16 W asg p < K \<or> label16 W asg p = 0xFFFF)"

definition img4 :: "8 word list" where
  "img4 = [10, 20, 30,  20, 30, 40,  100, 110, 120,  101, 111, 121]"

definition lab4 :: "32 word list" where
  "lab4 = [0, 0, 1, 0xFFFF]"

definition cl3 :: "Cluster list" where
  "cl3 = [centroid 7 7 0, centroid 8 8 1, centroid 9 9 2]"

definition shares3 :: "(nat \<times> nat) list list" where
  "shares3 = [[(1, 1), (0, 0)], [], [(1, 0), (0, 1)]]"

section \<open>Mask density utilities\<close>

text \<open>
  \<open>fast_slic_get_mask_density\<close>, lines 382 to 397. The sums are \<open>int\<close>, reduced to 32
  bits after every addition. In line 394 the sum is divided by an \<open>unsigned\<close> value, so
  it is converted to \<open>uint32_t\<close> first; \<open>my_min<int>\<close> converts the quotient back to
  \<open>int\<close>, and the store keeps the low 8 bits. The source's \<open>sum\<close> and \<open>mask\<close> are
  \<open>sums\<close> and \<open>mask_px\<close> here.
\<close>

definition mask_accumulate ::
  "nat \<Rightarrow> nat \<Rightarrow> 32 word list \<Rightarrow> 8 word list \<Rightarrow> nat \<Rightarrow> nat \<Rightarrow> int list \<Rightarrow> int list" where
  "mask_accumulate W K assignment mask_px i j sums =
    (let cluster_no = assignment ! (W * i + j)
     in if cluster_no < word_of_nat K
        then sums[unat cluster_no := i32 (sums ! unat cluster_no + uint (mask_px ! (W * i + j)))]
        else sums)"

definition fast_slic_get_mask_density ::
  "nat \<Rightarrow> nat \<Rightarrow> nat \<Rightarrow> Cluster list \<Rightarrow> 32 word list \<Rightarrow> 8 word list \<Rightarrow> 8 word list" where
  "fast_slic_get_mask_density H W K clusters assignment mask_px =
    (let sums = fold (\<lambda>i. fold (\<lambda>j. mask_accumulate W K assignment mask_px i j) [0..<W]) [0..<H]
                 (replicate K 0)
     in map (\<lambda>k. word_of_int
                (my_min 255 (i32 (u32 (sums ! k) div my_max (uint (num_members (clusters ! k))) 1))))
            [0..<K])"

text \<open>
  \<open>fast_slic_cluster_density_to_mask\<close>, lines 399 to 409, writing into the caller's
  buffer \<open>result\<close>.
\<close>

definition density_to_pixel ::
  "nat \<Rightarrow> nat \<Rightarrow> 32 word list \<Rightarrow> 8 word list \<Rightarrow> nat \<Rightarrow> nat \<Rightarrow> 8 word list \<Rightarrow> 8 word list" where
  "density_to_pixel W K assignment cluster_densities i j result =
    (let cluster_no = assignment ! (W * i + j)
     in if cluster_no < word_of_nat K
        then result[W * i + j := cluster_densities ! unat cluster_no]
        else result[W * i + j := 0])"

definition fast_slic_cluster_density_to_mask ::
  "nat \<Rightarrow> nat \<Rightarrow> nat \<Rightarrow> Cluster list \<Rightarrow> 32 word list \<Rightarrow> 8 word list \<Rightarrow> 8 word list \<Rightarrow> 8 word list" where
  "fast_slic_cluster_density_to_mask H W K clusters assignment cluster_densities result =
     fold (\<lambda>i. fold (\<lambda>j. density_to_pixel W K assignment cluster_densities i j) [0..<W]) [0..<H]
       result"

text \<open>
  The member count of the data model: \<open>num_members\<close> of cluster \<open>k\<close> is the number of
  pixels labelled \<open>k\<close>.
\<close>

definition member_count :: "nat \<Rightarrow> nat \<Rightarrow> 32 word list \<Rightarrow> nat \<Rightarrow> nat" where
  "member_count H W assignment k =
     length (filter (\<lambda>p. assignment ! p = word_of_nat k) [0..<H * W])"

definition members_consistent :: "nat \<Rightarrow> nat \<Rightarrow> nat \<Rightarrow> Cluster list \<Rightarrow> 32 word list \<Rightarrow> bool" where
  "members_consistent H W K clusters assignment =
    (length clusters = K \<and>
     list_all (\<lambda>k. unat (num_members (clusters ! k)) = member_count H W assignment k) [0..<K])"

subsection \<open>The flat pixel loop and a two-pixel image\<close>

text \<open>
  \<open>mask_step\<close> is the body of the loops of lines 385 to 391 at the pixel index
  \<open>W * i + j\<close>. The example is a 1 by 2 image whose second pixel is unlabelled.
\<close>

definition mask_step :: "nat \<Rightarrow> 32 word list \<Rightarrow> 8 word list \<Rightarrow> nat \<Rightarrow> int list \<Rightarrow> int list" where
  "mask_step K asg m p sums =
    (if asg ! p < word_of_nat K
     then sums[unat (asg ! p) := i32 (sums ! unat (asg ! p) + uint (m ! p))]
     else sums)"

definition half_labelled :: "32 word list" where
  "half_labelled = [0, 0xFFFF]"

definition one_member :: "Cluster list" where
  "one_member = [\<lparr>cl_y = 0, cl_x = 0, cl_r = 0, cl_g = 0, cl_b = 0, number = 0, num_members = 1\<rparr>]"

section \<open>Facts about the casts\<close>

lemma i16_id: "- 32768 \<le> v \<Longrightarrow> v < 32768 \<Longrightarrow> i16 v = v"
  by (simp add: i16_def)

lemma uint8_range: "0 \<le> uint (w :: 8 word) \<and> uint w \<le> 255"
  using uint_lt2p [of w] by simp

lemma uint16_range: "0 \<le> uint (w :: 16 word) \<and> uint w < 65536"
  using uint_lt2p [of w] by simp

lemma uint_ucast_16_32: "uint (ucast (w :: 16 word) :: 32 word) = uint w"
  using uint16_range [of w] by (simp add: unsigned_ucast_eq take_bit_eq_mod)

section \<open>The candidate word wraps\<close>

lemma abs_diff8:
  "fast_abs (i16 (uint (a :: 8 word) - i16 (uint (b :: 8 word)))) = \<bar>uint a - uint b\<bar>"
proof -
  have 1: "i16 (uint b) = uint b"
    using uint8_range [of b] by (intro i16_id) linarith+
  have 2: "i16 (uint a - uint b) = uint a - uint b"
    using uint8_range [of a] uint8_range [of b] by (intro i16_id) linarith+
  show ?thesis by (simp add: 1 2 fast_abs_def)
qed

lemma color_l1_abs:
  "color_l1 c img b =
     \<bar>uint (img ! (3 * b)) - uint (cl_r c)\<bar> + \<bar>uint (img ! (3 * b + 1)) - uint (cl_g c)\<bar>
     + \<bar>uint (img ! (3 * b + 2)) - uint (cl_b c)\<bar>"
  by (simp add: color_l1_def Let_def abs_diff8)

lemma color_l1_range: "0 \<le> color_l1 c img b \<and> color_l1 c img b \<le> 765"
  unfolding color_l1_abs
  using uint8_range [of "img ! (3 * b)"] uint8_range [of "img ! (3 * b + 1)"]
    uint8_range [of "img ! (3 * b + 2)"]
    uint8_range [of "cl_r c"] uint8_range [of "cl_g c"] uint8_range [of "cl_b c"]
  by linarith

lemma uint_color_dist:
  "uint (ucast (push_bit q (word_of_int v :: 32 word)) :: 16 word) = (v * 2 ^ q) mod 65536"
proof -
  have "push_bit q (word_of_int v :: 32 word) = word_of_int (v * 2 ^ q)"
    by (simp add: push_bit_eq_mult)
  then have "uint (push_bit q (word_of_int v :: 32 word)) = (v * 2 ^ q) mod 4294967296"
    by (simp only: uint_word_of_int) simp
  then have "uint (ucast (push_bit q (word_of_int v :: 32 word)) :: 16 word)
      = ((v * 2 ^ q) mod 4294967296) mod 65536"
    by (simp add: unsigned_ucast_eq take_bit_eq_mod)
  also have "\<dots> = (v * 2 ^ q) mod 65536"
    by (rule mod_mod_cancel) simp
  finally show ?thesis .
qed

lemma uint_shift16: "uint (push_bit 16 (word_of_int s :: 32 word)) = (s mod 65536) * 65536"
proof -
  have "uint (push_bit 16 (word_of_int s :: 32 word)) = (s * 65536) mod (65536 * 65536)"
    by (simp add: push_bit_eq_mult uint_word_ariths uint_word_of_int mod_simps)
  also have "\<dots> = (s mod 65536) * 65536"
    by (simp only: mult_mod_left)
  finally show ?thesis .
qed

lemma uint_get_assignment_value:
  "uint (get_assignment_value c img b sd q) = wrapped_score c img b sd q * 65536 + uint (number c)"
proof -
  define s where "s = (color_l1 c img b * 2 ^ q) mod 65536 + uint sd"
  have hi: "0 \<le> s mod 65536 \<and> s mod 65536 < 65536" by simp
  have "uint (get_assignment_value c img b sd q)
      = ((s mod 65536) * 65536 + uint (number c)) mod 4294967296"
    unfolding get_assignment_value_def Let_def s_def
    by (simp only: uint_word_ariths uint_shift16 uint_ucast_16_32 uint_color_dist) simp
  also have "\<dots> = (s mod 65536) * 65536 + uint (number c)"
    using hi uint16_range [of "number c"] by (intro mod_pos_pos_trivial) linarith+
  finally show ?thesis by (simp add: s_def wrapped_score_def)
qed

lemma wrapped_score_range: "0 \<le> wrapped_score c img b sd q \<and> wrapped_score c img b sd q < 65536"
  by (simp add: wrapped_score_def)

lemma wrapped_score_exact:
  assumes "color_l1 c img b * 2 ^ q + uint sd < 65536"
  shows "wrapped_score c img b sd q = color_l1 c img b * 2 ^ q + uint sd"
proof -
  have a: "0 \<le> color_l1 c img b * 2 ^ q"
    using color_l1_range [of c img b] by simp
  have b: "0 \<le> uint sd" by simp
  have "(color_l1 c img b * 2 ^ q) mod 65536 = color_l1 c img b * 2 ^ q"
    using a b assms by (intro mod_pos_pos_trivial) linarith+
  moreover have "(color_l1 c img b * 2 ^ q + uint sd) mod 65536 = color_l1 c img b * 2 ^ q + uint sd"
    using a b assms by (intro mod_pos_pos_trivial) linarith+
  ultimately show ?thesis by (simp add: wrapped_score_def)
qed

text \<open>
  Claim C3, as amended. The candidate word does not saturate. Its high 16 bits are the
  shifted colour cost reduced modulo \<open>2^16\<close>, plus the spatial cost, reduced modulo
  \<open>2^16\<close> again; its low 16 bits are the cluster number. Whenever the shifted colour
  cost plus the spatial cost is below \<open>2^16\<close>, the high 16 bits are exactly that sum.
  (A shift count of 32 or more is undefined in C++, hence \<open>q < 32\<close>.)
\<close>

theorem get_assignment_value_wraps:
  assumes "q < 32"
  shows "uint (get_assignment_value c img b sd q) div 65536
           = ((color_l1 c img b * 2 ^ q) mod 65536 + uint sd) mod 65536
       \<and> uint (get_assignment_value c img b sd q) mod 65536 = uint (number c)
       \<and> (color_l1 c img b * 2 ^ q + uint sd < 65536 \<longrightarrow>
            uint (get_assignment_value c img b sd q) div 65536
              = color_l1 c img b * 2 ^ q + uint sd)"
proof -
  have n: "0 \<le> uint (number c) \<and> uint (number c) < 65536"
    by (rule uint16_range)
  have d: "uint (get_assignment_value c img b sd q) div 65536 = wrapped_score c img b sd q"
    using n by (simp add: uint_get_assignment_value)
  have m: "uint (get_assignment_value c img b sd q) mod 65536 = uint (number c)"
    using n by (simp add: uint_get_assignment_value)
  show ?thesis
    using d m wrapped_score_exact [of c img b q sd] by (simp add: wrapped_score_def)
qed

theorem get_assignment_value_wraps_witness:
  "(5 :: nat) < 32
   \<and> uint (get_assignment_value black [10, 20, 30] 0 7 5) div 65536 = 1927
   \<and> uint (get_assignment_value black [10, 20, 30] 0 7 5) mod 65536 = 3
   \<and> color_l1 black [10, 20, 30] 0 * 2 ^ 5 + uint (7 :: 16 word) < 65536"
  using get_assignment_value_wraps [of 5 black "[10, 20, 30]" 0 7]
  by (simp add: color_l1_abs black_def)

text \<open>
  Claim C3 as the spec states it fails: for a white pixel, the black cluster and
  \<open>quantize_level = 7\<close> the colour distance is 765, its shifted value 97920 exceeds
  \<open>0xFFFF\<close>, and the high 16 bits of the candidate are \<open>97920 - 65536 = 32384\<close>, not
  the saturated \<open>0xFFFF\<close>.
\<close>

theorem get_assignment_value_saturates_counterexample:
  "uint (get_assignment_value black [255, 255, 255] 0 0 7) div 65536 = 32384
   \<and> saturated_score (color_l1 black [255, 255, 255] 0) 7 (uint (0 :: 16 word)) = 65535"
  by (simp add: get_assignment_value_def color_l1_abs black_def saturated_score_def)

section \<open>Centroid KNN builder: what the lists hold\<close>

text \<open>\<open>isqrt\<close> is the integer square root.\<close>

lemma isqrt_correct: "isqrt n * isqrt n \<le> n \<and> n < (isqrt n + 1) * (isqrt n + 1)"
proof (induction n rule: isqrt.induct)
  case (1 n)
  show ?case
  proof (cases "n = 0")
    case True
    then show ?thesis by (simp add: isqrt.simps)
  next
    case False
    define m where "m = isqrt (n div 4)"
    from 1 False have IH: "m * m \<le> n div 4 \<and> n div 4 < (m + 1) * (m + 1)"
      by (simp add: m_def)
    have lo: "(2 * m) * (2 * m) \<le> n"
    proof -
      have "4 * (m * m) \<le> 4 * (n div 4)" using IH by simp
      also have "\<dots> \<le> n" by simp
      finally show ?thesis by (simp add: algebra_simps)
    qed
    have hi: "n < (2 * m + 2) * (2 * m + 2)"
    proof -
      have "n div 4 + 1 \<le> (m + 1) * (m + 1)" using IH by simp
      then have "4 * (n div 4 + 1) \<le> 4 * ((m + 1) * (m + 1))" by simp
      moreover have "n < 4 * (n div 4 + 1)" by simp
      ultimately have "n < 4 * ((m + 1) * (m + 1))" by linarith
      then show ?thesis by (simp add: algebra_simps)
    qed
    have eq: "isqrt n = (if (2 * m + 1) * (2 * m + 1) \<le> n then 2 * m + 1 else 2 * m)"
      using False by (subst isqrt.simps) (simp add: m_def Let_def)
    show ?thesis
      using lo hi by (auto simp: eq)
  qed
qed

lemma fold_invariant:
  assumes "P s" and "\<And>x s. x \<in> set xs \<Longrightarrow> P s \<Longrightarrow> P (f x s)"
  shows "P (fold f xs s)"
  using assms by (induction xs arbitrary: s) auto

lemma set_push_heap: "set (push_heap e h) = insert e (set h)"
  by (induction h) auto

lemma set_pop_excess: "set (pop_excess n h) \<subseteq> set h"
  by (induction h) auto

lemma knn_visit_entries:
  assumes "e \<in> set (knn_visit clusters n i a heap)"
  shows "e \<in> set heap \<or> (snd e = a \<and> a \<noteq> i)"
proof (cases "a = i")
  case True
  with assms show ?thesis by (simp add: knn_visit_def)
next
  case False
  from assms False have "e \<in> set heap \<or> (\<exists>d. e \<in> set (pop_excess n (push_heap (d, a) heap)))"
    by (auto simp: knn_visit_def Let_def split: if_splits)
  then show ?thesis
    using False set_pop_excess [of n] by (fastforce simp: set_push_heap)
qed

lemma knn_visit_ok:
  assumes "heap_ok K i heap" and "a < K"
  shows "heap_ok K i (knn_visit clusters n i a heap)"
  using assms knn_visit_entries [of _ clusters n i a heap]
  unfolding heap_ok_def by blast

lemma fill_cells_ok:
  assumes "cells_ok K s_cells" and "i < K"
  shows "cells_ok K (fill_cells clusters S nw i s_cells)"
proof -
  let ?idx = "cell_index (clusters ! i) S nw"
  show ?thesis
  proof (cases "?idx < length s_cells")
    case True
    then have "s_cells ! ?idx \<in> set s_cells" by simp
    with assms have "\<forall>a \<in> set (s_cells ! ?idx @ [i]). a < K"
      by (auto simp: cells_ok_def)
    with assms(1) show ?thesis
      unfolding fill_cells_def Let_def cells_ok_def
      using set_update_subset_insert [of s_cells ?idx "s_cells ! ?idx @ [i]"] by blast
  next
    case False
    with assms(1) show ?thesis by (simp add: fill_cells_def Let_def list_update_beyond)
  qed
qed

lemma fill_cells_length: "length (fill_cells clusters S nw i s_cells) = length s_cells"
  by (simp add: fill_cells_def Let_def)

lemma cell_in_grid:
  assumes "0 \<le> cy" "cy < nh" "0 \<le> cx" "cx < (nw::int)"
  shows "nat (cy * nw + cx) < nat (nh * nw)"
proof -
  have "cy + 1 \<le> nh" using assms by simp
  then have "(cy + 1) * nw \<le> nh * nw" using assms by (intro mult_right_mono) auto
  then have "cy * nw + cx < nh * nw" using assms by (simp add: algebra_simps)
  moreover have "0 \<le> cy * nw + cx" using assms by simp
  ultimately show ?thesis by simp
qed

lemma my_max_ge2: "b \<le> my_max a b"
  by (simp add: my_max_def)

lemma my_min_le1: "my_min a b \<le> a"
  by (simp add: my_min_def)

lemma window_range:
  assumes "c \<in> set [my_max (m - 3) 0 .. my_min n (m + 3) - 1]"
  shows "0 \<le> c \<and> c < n"
proof -
  from assms have "my_max (m - 3) 0 \<le> c" and "c \<le> my_min n (m + 3) - 1" by simp_all
  then show ?thesis
    using my_max_ge2 [of 0 "m - 3"] my_min_le1 [of n "m + 3"] by linarith
qed

lemma knn_query_ok:
  assumes "cells_ok K s_cells" and "length s_cells = nat (nh * nw)"
  shows "heap_ok K i (knn_query clusters S nh nw n s_cells i)"
  unfolding knn_query_def Let_def
proof (rule fold_invariant)
  show "heap_ok K i []" by (simp add: heap_ok_def)
next
  fix cy h
  assume cy: "cy \<in> set [my_max (c_div (sint (cl_y (clusters ! i))) S - 3) 0 ..
                          my_min nh (c_div (sint (cl_y (clusters ! i))) S + 3) - 1]"
    and h: "heap_ok K i h"
  show "heap_ok K i (fold (\<lambda>cx. fold (knn_visit clusters n i) (s_cells ! nat (cy * nw + cx)))
           [my_max (c_div (sint (cl_x (clusters ! i))) S - 3) 0 ..
            my_min nw (c_div (sint (cl_x (clusters ! i))) S + 3) - 1] h)"
  proof (rule fold_invariant)
    show "heap_ok K i h" by fact
  next
    fix cx h'
    assume cx: "cx \<in> set [my_max (c_div (sint (cl_x (clusters ! i))) S - 3) 0 ..
                            my_min nw (c_div (sint (cl_x (clusters ! i))) S + 3) - 1]"
      and h': "heap_ok K i h'"
    have "nat (cy * nw + cx) < length s_cells"
      using window_range [OF cy] window_range [OF cx] assms(2) cell_in_grid [of cy nh cx nw]
      by simp
    then have "s_cells ! nat (cy * nw + cx) \<in> set s_cells" by simp
    with assms(1) have *: "\<And>a. a \<in> set (s_cells ! nat (cy * nw + cx)) \<Longrightarrow> a < K"
      by (simp add: cells_ok_def)
    show "heap_ok K i (fold (knn_visit clusters n i) (s_cells ! nat (cy * nw + cx)) h')"
      by (rule fold_invariant [where P = "heap_ok K i", OF h']) (rule knn_visit_ok, assumption, rule *)
  qed
qed

lemma cells_built_ok:
  "cells_ok K (fold (fill_cells clusters S nw) [0..<K] (replicate m []))"
  by (rule fold_invariant) (auto simp: cells_ok_def [of K "replicate m []"] intro: fill_cells_ok)

lemma cells_built_length:
  "length (fold (fill_cells clusters S nw) xs cells) = length cells"
  by (induction xs arbitrary: cells) (simp_all add: fill_cells_length)

lemma ucast_number_inj: "(ucast (a :: 16 word) :: 32 word) = ucast b \<Longrightarrow> a = b"
  by (metis uint_ucast_16_32 word_uint_eq_iff)

lemma pair_le_total: "pair_le a b \<or> pair_le b a"
  by (auto simp: pair_le_def)

lemma pair_le_trans: "pair_le a b \<Longrightarrow> pair_le b c \<Longrightarrow> pair_le a c"
  by (auto simp: pair_le_def)

lemma descending_push_heap: "descending heap \<Longrightarrow> descending (push_heap e heap)"
proof (induction heap)
  case Nil
  show ?case by (simp add: descending_def)
next
  case (Cons h hs)
  show ?case
  proof (cases "pair_le h e")
    case True
    with Cons.prems show ?thesis
      by (auto simp: descending_def intro: pair_le_trans)
  next
    case False
    then have "pair_le e h" using pair_le_total by blast
    with Cons False show ?thesis
      by (auto simp: descending_def set_push_heap)
  qed
qed

lemma descending_pop_excess: "descending heap \<Longrightarrow> descending (pop_excess n heap)"
  by (induction heap) (auto simp: descending_def)

lemma descending_knn_visit:
  "descending heap \<Longrightarrow> descending (knn_visit clusters n i a heap)"
  by (simp add: knn_visit_def Let_def descending_pop_excess descending_push_heap)

lemma descending_hd_greatest:
  "descending heap \<Longrightarrow> e \<in> set heap \<Longrightarrow> pair_le e (hd heap)"
  by (cases heap) (auto simp: descending_def pair_le_def)

text \<open>
  Claim C10. For a cluster array as the data model has it (every centroid inside the
  image, the \<open>number\<close> fields pairwise distinct), the neighbour list returned for
  cluster \<open>i\<close> never holds cluster \<open>i\<close>'s own number, whatever the requested count
  and also when other clusters share its coordinates: line 347 skips the query's own
  pointer, and only members of the grid, which are clusters of the array, are pushed.
\<close>

theorem knn_excludes_self:
  assumes "knn_pre H W K clusters" and "distinct (map number clusters)" and "i < length clusters"
  shows "ucast (number (clusters ! i))
           \<notin> set (neighbors (fast_slic_knn_connectivity H W K clusters n) ! i)"
proof
  define S where "S = my_max (int (isqrt (nat (c_div (i32 (H * W)) K)))) 1"
  define s_cells where "s_cells = fold (fill_cells clusters S (ceil_int W S)) [0..<nat K]
      (replicate (nat (ceil_int H S * ceil_int W S)) [])"
  define heap where "heap = knn_query clusters S (ceil_int H S) (ceil_int W S) n s_cells i"
  from assms(1) have K: "nat K = length clusters" by (auto simp: knn_pre_def)
  have nb: "neighbors (fast_slic_knn_connectivity H W K clusters n) ! i
      = map (\<lambda>e. ucast (number (clusters ! snd e))) heap"
    using assms(3) K
    by (simp add: fast_slic_knn_connectivity_def Let_def heap_def s_cells_def S_def)
  have "heap_ok (nat K) i heap"
    unfolding heap_def
    by (rule knn_query_ok) (simp_all add: s_cells_def cells_built_ok cells_built_length)
  then have ok: "\<And>e. e \<in> set heap \<Longrightarrow> snd e \<noteq> i \<and> snd e < length clusters"
    using K by (simp add: heap_ok_def)
  assume "ucast (number (clusters ! i))
           \<in> set (neighbors (fast_slic_knn_connectivity H W K clusters n) ! i)"
  then obtain e where e: "e \<in> set heap"
    and "(ucast (number (clusters ! snd e)) :: 32 word) = ucast (number (clusters ! i))"
    unfolding nb by auto
  then have "number (clusters ! snd e) = number (clusters ! i)"
    by (intro ucast_number_inj)
  then have "map number clusters ! snd e = map number clusters ! i"
    using ok [OF e] assms(3) by simp
  moreover have "snd e < length (map number clusters)" "i < length (map number clusters)"
    using ok [OF e] assms(3) by simp_all
  ultimately have "snd e = i"
    using assms(2) by (simp only: nth_eq_iff_index_eq)
  with ok [OF e] show False by simp
qed

theorem knn_excludes_self_witness:
  "knn_pre 6 6 9 grid9 \<and> distinct (map number grid9) \<and> (4 :: nat) < length grid9
   \<and> 4 \<notin> set (neighbors (fast_slic_knn_connectivity 6 6 9 grid9 4) ! 4)"
  using knn_excludes_self [of 6 6 9 grid9 4 4]
  by (simp add: knn_pre_def grid9_def centroid_def)

text \<open>
  Claim C5 fails on the layout it names. For the nine centroids of \<open>grid9\<close> and four
  requested neighbours, every list should have \<open>min 4 (9 - 1) = 4\<close> entries. Line 349
  rejects a candidate that is not closer than the farthest kept one even while the heap
  is not full, so the corner cluster 0 keeps only the first candidate it meets.
\<close>

theorem knn_grid9_sizes:
  "knn_pre 6 6 9 grid9
   \<and> num_neighbors (fast_slic_knn_connectivity 6 6 9 grid9 4) = [1, 1, 3, 1, 4, 4, 3, 4, 4]
   \<and> neighbors (fast_slic_knn_connectivity 6 6 9 grid9 4) ! 0 = [1]"
  by code_simp

text \<open>
  Claim C6 fails at the upper end of the block. In a 1 by 8 image with \<open>K = 2\<close> the cell
  size is 2 and the row has four cells; the centroids of \<open>row2\<close> lie in the cells 0 and
  3. The loops of lines 344 and 345 stop before \<open>cell_center + 3\<close>, so the query from
  cell 0 never reaches cell 3, while the query from cell 3 does reach cell 0.
\<close>

theorem knn_row2_window:
  "knn_pre 1 8 2 row2
   \<and> cell_index (row2 ! 0) 2 4 = 0 \<and> cell_index (row2 ! 1) 2 4 = 3
   \<and> neighbors (fast_slic_knn_connectivity 1 8 2 row2 1) = [[], [0]]"
  by code_simp

section \<open>Pixel adjacency builder: symmetry, cap and adjacency\<close>













lemma fold_nested:
  "fold (\<lambda>i. fold (\<lambda>j. f i j) js) is s = fold (\<lambda>p. f (fst p) (snd p)) (List.product is js) s"
  by (induction "is" arbitrary: s) (simp_all add: fold_map comp_def)





lemma labels_ok_K: "labels_ok H W K asg \<Longrightarrow> K < 2 ^ 32"
  by (simp add: labels_ok_def)
















section \<open>Mask density utilities: the round trip\<close>

lemma i32_id: "- 2147483648 \<le> v \<Longrightarrow> v < 2147483648 \<Longrightarrow> i32 v = v"
  by (simp add: i32_def)

lemma i32_add_left: "i32 (i32 a + b) = i32 (a + b)"
proof -
  have "(i32 a + b + 2147483648) mod 4294967296 = (a + b + 2147483648) mod 4294967296"
    unfolding i32_def by (simp add: mod_simps algebra_simps)
  then show ?thesis by (simp add: i32_def)
qed

lemma u32_id: "0 \<le> v \<Longrightarrow> v < 4294967296 \<Longrightarrow> u32 v = v"
  by (simp add: u32_def)

lemma flat_index_list:
  "map (\<lambda>p. W * fst p + snd p) (List.product [0..<H] [0..<W]) = [0..<H * W]"
proof (induction H)
  case 0
  show ?case by simp
next
  case (Suc H)
  have "List.product [0..<Suc H] [0..<W] = List.product [0..<H] [0..<W] @ map (Pair H) [0..<W]"
    by (simp add: product_concat_map)
  moreover have "map (\<lambda>p. W * fst p + snd p) (map (Pair H) [0..<W]) = [H * W..<Suc H * W]"
  proof -
    have "map (\<lambda>p. W * fst p + snd p) (map (Pair H) [0..<W]) = map (\<lambda>j. j + H * W) [0..<W]"
      by (simp add: comp_def algebra_simps)
    also have "\<dots> = [H * W..<W + H * W]"
      by (simp add: map_add_upt)
    finally show ?thesis by (simp add: algebra_simps)
  qed
  moreover have "[0..<Suc H * W] = [0..<H * W] @ [H * W..<Suc H * W]"
    using upt_add_eq_append [of 0 "H * W" W] by (simp add: algebra_simps)
  ultimately show ?case using Suc by simp
qed

lemma fold_flat:
  "fold (\<lambda>i. fold (\<lambda>j. f (W * i + j)) [0..<W]) [0..<H] s = fold f [0..<H * W] s"
proof -
  have "fold (\<lambda>i. fold (\<lambda>j. f (W * i + j)) [0..<W]) [0..<H] s
      = fold (\<lambda>p. f (W * fst p + snd p)) (List.product [0..<H] [0..<W]) s"
    by (rule fold_nested)
  also have "\<dots> = fold f (map (\<lambda>p. W * fst p + snd p) (List.product [0..<H] [0..<W])) s"
    by (simp add: fold_map comp_def)
  finally show ?thesis by (simp add: flat_index_list)
qed

lemma mask_accumulate_flat: "mask_accumulate W K asg m i j = mask_step K asg m (W * i + j)"
  by (rule ext) (simp add: mask_accumulate_def mask_step_def Let_def)

lemma word_less_K:
  assumes "K < 2 ^ 32"
  shows "(w :: 32 word) < word_of_nat K \<longleftrightarrow> unat w < K"
proof -
  have "unat (word_of_nat K :: 32 word) = K" using assms by (simp add: unat_of_nat)
  then show ?thesis by (simp add: word_less_nat_alt)
qed

lemma word_eq_of_nat:
  assumes "k < 2 ^ 32"
  shows "(w :: 32 word) = word_of_nat k \<longleftrightarrow> unat w = k"
proof
  assume "w = word_of_nat k"
  then show "unat w = k" using assms by (simp add: unat_of_nat)
next
  assume "unat w = k"
  then show "w = word_of_nat k" by auto
qed

lemma mask_step_length: "length (mask_step K asg m p sums) = length sums"
  by (simp add: mask_step_def)

lemma mask_sums:
  assumes "K < 2 ^ 32" and "k < K" and "length sums = K"
  shows "fold (mask_step K asg m) ps sums ! k
       = i32 (sums ! k + sum_list (map (\<lambda>p. uint (m ! p)) (filter (\<lambda>p. asg ! p = word_of_nat k) ps)))
         \<or> (filter (\<lambda>p. asg ! p = word_of_nat k) ps = [] \<and> fold (mask_step K asg m) ps sums ! k = sums ! k)"
  using assms(3)
proof (induction ps arbitrary: sums)
  case Nil
  show ?case by simp
next
  case (Cons p ps)
  let ?s' = "mask_step K asg m p sums"
  have len: "length ?s' = K" using Cons.prems by (simp add: mask_step_length)
  have k32: "k < 2 ^ 32" using assms(1,2) by simp
  note IH = Cons.IH [OF len]
  show ?case
  proof (cases "asg ! p = word_of_nat k")
    case True
    then have u: "unat (asg ! p) = k" using k32 by (simp add: word_eq_of_nat)
    have "asg ! p < word_of_nat K" using u assms(1,2) by (simp add: word_less_K)
    then have s': "?s' ! k = i32 (sums ! k + uint (m ! p))"
      using u Cons.prems assms(2) by (simp add: mask_step_def)
    from IH have "fold (mask_step K asg m) ps ?s' ! k
       = i32 (?s' ! k + sum_list (map (\<lambda>p. uint (m ! p)) (filter (\<lambda>p. asg ! p = word_of_nat k) ps)))"
    proof
      assume "filter (\<lambda>p. asg ! p = word_of_nat k) ps = [] \<and> fold (mask_step K asg m) ps ?s' ! k = ?s' ! k"
      then show ?thesis by (simp add: s' i32_add_left) (simp add: i32_def)
    qed simp
    then show ?thesis
      using True by (simp add: s' i32_add_left add.assoc)
  next
    case False
    then have "unat (asg ! p) \<noteq> k" using k32 by (simp add: word_eq_of_nat)
    then have "?s' ! k = sums ! k"
      by (simp add: mask_step_def)
    with IH False show ?thesis by simp
  qed
qed

lemma fold_write:
  assumes "q < length r" and "q \<in> set ps"
  shows "fold (\<lambda>p r. r[p := g p]) ps r ! q = g q"
  using assms(2)
proof (induction ps rule: rev_induct)
  case Nil
  then show ?case by simp
next
  case (snoc p ps)
  have len: "length (fold (\<lambda>p r. r[p := g p]) ps r) = length r"
    by (induction ps arbitrary: r) simp_all
  show ?case
  proof (cases "p = q")
    case True
    then show ?thesis using assms(1) len by simp
  next
    case False
    with snoc have "fold (\<lambda>p r. r[p := g p]) ps r ! q = g q" by simp
    with False show ?thesis by simp
  qed
qed

lemma density_to_pixel_flat:
  "density_to_pixel W K asg d i j =
     (\<lambda>r. r[W * i + j := (if asg ! (W * i + j) < word_of_nat K then d ! unat (asg ! (W * i + j)) else 0)])"
  by (rule ext) (simp add: density_to_pixel_def Let_def)

lemma pixel_index_less:
  assumes "i < H" "j < W"
  shows "W * i + j < H * (W :: nat)"
proof -
  have "W * i + j < W * i + W" using assms(2) by simp
  also have "\<dots> = W * Suc i" by simp
  also have "\<dots> \<le> W * H" using assms(1) by (intro mult_le_mono2) simp
  finally show ?thesis by (simp add: mult.commute)
qed

lemma density_of_constant_mask:
  assumes K: "K < 2 ^ 32" and k: "k < K" and cons: "members_consistent H W K clusters asg"
    and pos: "0 < member_count H W asg k" and small: "255 * (H * W) < 2 ^ 31"
  shows "fast_slic_get_mask_density H W K clusters asg (replicate (H * W) v) ! k = v"
proof -
  let ?m = "replicate (H * W) v"
  let ?f = "filter (\<lambda>p. asg ! p = word_of_nat k) [0..<H * W]"
  let ?n = "member_count H W asg k"
  have n: "?n = length ?f" by (simp add: member_count_def)
  have sums_eq: "fold (\<lambda>i. fold (\<lambda>j. mask_accumulate W K asg ?m i j) [0..<W]) [0..<H] (replicate K 0)
      = fold (mask_step K asg ?m) [0..<H * W] (replicate K 0)"
    by (simp only: mask_accumulate_flat fold_flat)
  have "sum_list (map (\<lambda>p. uint (?m ! p)) ?f) = sum_list (map (\<lambda>p. uint v) ?f)"
    by (intro arg_cong [where f = sum_list] map_cong) auto
  also have "\<dots> = int ?n * uint v" by (simp add: sum_list_triv n)
  finally have tot: "sum_list (map (\<lambda>p. uint (?m ! p)) ?f) = int ?n * uint v" .
  have nle: "?n \<le> H * W"
    unfolding n using length_filter_le [of _ "[0..<H * W]"] by simp
  have v: "0 \<le> uint v \<and> uint v \<le> 255" by (rule uint8_range)
  have bound: "0 \<le> int ?n * uint v \<and> int ?n * uint v < 2147483648"
  proof -
    have "int ?n \<le> int (H * W)" using nle by (simp only: of_nat_le_iff)
    then have "int ?n * uint v \<le> int (H * W) * 255"
      using v by (intro mult_mono) simp_all
    also have "\<dots> = int (255 * (H * W))" by simp
    also have "\<dots> < int (2 ^ 31)" using small by (simp only: of_nat_less_iff)
    finally show ?thesis using v by simp
  qed
  have ne: "?f \<noteq> []" using pos n by auto
  from mask_sums [OF K k, of "replicate K 0" asg ?m "[0..<H * W]"] ne
  have "fold (mask_step K asg ?m) [0..<H * W] (replicate K 0) ! k = i32 (int ?n * uint v)"
    using k by (simp add: tot)
  also have "\<dots> = int ?n * uint v"
    using bound by (intro i32_id) linarith+
  finally have sk: "fold (mask_step K asg ?m) [0..<H * W] (replicate K 0) ! k = int ?n * uint v" .
  have nm: "uint (num_members (clusters ! k)) = int ?n"
  proof -
    from cons k have "unat (num_members (clusters ! k)) = ?n"
      by (simp add: members_consistent_def list_all_iff)
    then show ?thesis by (simp add: uint_nat)
  qed
  have mx: "my_max (int ?n) 1 = int ?n" using pos by (simp add: my_max_def)
  have dv: "u32 (int ?n * uint v) div int ?n = uint v"
  proof -
    have "u32 (int ?n * uint v) = int ?n * uint v"
      using bound by (intro u32_id) linarith+
    then show ?thesis using pos by simp
  qed
  have "fast_slic_get_mask_density H W K clusters asg ?m ! k
      = word_of_int (my_min 255 (i32 (u32 (int ?n * uint v) div my_max (int ?n) 1)))"
    using k by (simp add: fast_slic_get_mask_density_def Let_def sums_eq sk nm)
  also have "\<dots> = word_of_int (my_min 255 (i32 (uint v)))"
    by (simp only: mx dv)
  also have "\<dots> = word_of_int (uint v)"
    using v by (simp add: my_min_def i32_def)
  finally show ?thesis by simp
qed

text \<open>
  Claim C7. For a label image with labels in \<open>[0, K)\<close> or \<open>0xFFFF\<close>, clusters whose
  \<open>num_members\<close> are the member counts, and the constant mask of value \<open>v\<close>, the
  densities of \<open>fast_slic_get_mask_density\<close> broadcast by
  \<open>fast_slic_cluster_density_to_mask\<close> give \<open>v\<close> at every pixel with a cluster label and
  0 at every sentinel pixel. The image is small enough for the \<open>int\<close> sums:
  \<open>255 * H * W < 2^31\<close>.
\<close>

theorem mask_density_round_trip:
  assumes ok: "labels_ok H W K asg" and cons: "members_consistent H W K clusters asg"
    and small: "255 * (H * W) < 2 ^ 31" and len: "length result = H * W"
    and ij: "i < H" "j < W"
  shows "(unat (asg ! (W * i + j)) < K \<longrightarrow>
            fast_slic_cluster_density_to_mask H W K clusters asg
              (fast_slic_get_mask_density H W K clusters asg (replicate (H * W) v)) result
              ! (W * i + j) = v)
       \<and> (asg ! (W * i + j) = 0xFFFF \<longrightarrow>
            fast_slic_cluster_density_to_mask H W K clusters asg
              (fast_slic_get_mask_density H W K clusters asg (replicate (H * W) v)) result
              ! (W * i + j) = 0)"
proof -
  let ?q = "W * i + j"
  let ?d = "fast_slic_get_mask_density H W K clusters asg (replicate (H * W) v)"
  let ?g = "\<lambda>p. if asg ! p < word_of_nat K then ?d ! unat (asg ! p) else 0"
  have K: "K < 2 ^ 32" using ok by (rule labels_ok_K)
  have K16: "K \<le> 65535" using ok by (simp add: labels_ok_def)
  have q: "?q < H * W" using ij by (rule pixel_index_less)
  have "fast_slic_cluster_density_to_mask H W K clusters asg ?d result
      = fold (\<lambda>p r. r[p := ?g p]) [0..<H * W] result"
    unfolding fast_slic_cluster_density_to_mask_def density_to_pixel_flat
    by (rule fold_flat [where f = "\<lambda>p r. r[p := ?g p]"])
  then have out: "fast_slic_cluster_density_to_mask H W K clusters asg ?d result ! ?q = ?g ?q"
    using q len by (simp add: fold_write)
  have 1: "?g ?q = v" if l: "unat (asg ! ?q) < K"
  proof -
    have "?q \<in> set (filter (\<lambda>p. asg ! p = word_of_nat (unat (asg ! ?q))) [0..<H * W])"
      using q by simp
    then have "0 < member_count H W asg (unat (asg ! ?q))"
      unfolding member_count_def by (metis length_pos_if_in_set)
    from density_of_constant_mask [OF K l cons this small]
    show ?thesis using l K by (simp add: word_less_K)
  qed
  have 2: "?g ?q = 0" if l: "asg ! ?q = 0xFFFF"
  proof -
    have "unat (asg ! ?q) = 65535" using l by simp
    then have "\<not> unat (asg ! ?q) < K" using K16 by simp
    then show ?thesis using K by (simp add: word_less_K)
  qed
  from 1 2 show ?thesis unfolding out by blast
qed

theorem mask_density_round_trip_witness:
  "labels_ok 1 2 1 half_labelled \<and> members_consistent 1 2 1 one_member half_labelled
   \<and> (255 :: nat) * (1 * 2) < 2 ^ 31
   \<and> fast_slic_cluster_density_to_mask 1 2 1 one_member half_labelled
        (fast_slic_get_mask_density 1 2 1 one_member half_labelled (replicate (1 * 2) 200)) [7, 7]
        ! (2 * 0 + 0) = 200
   \<and> fast_slic_cluster_density_to_mask 1 2 1 one_member half_labelled
        (fast_slic_get_mask_density 1 2 1 one_member half_labelled (replicate (1 * 2) 200)) [7, 7]
        ! (2 * 0 + 1) = 0"
proof -
  have ok: "labels_ok 1 2 1 half_labelled"
    by (simp add: labels_ok_def half_labelled_def)
  have cons: "members_consistent 1 2 1 one_member half_labelled"
    by (simp add: members_consistent_def member_count_def one_member_def half_labelled_def upt_rec)
  have small: "(255 :: nat) * (1 * 2) < 2 ^ 31" by simp
  have len: "length [7, 7 :: 8 word] = 1 * 2" by simp
  have l0: "unat (half_labelled ! (2 * 0 + 0)) < 1" and l1: "half_labelled ! (2 * 0 + 1) = 0xFFFF"
    by (simp_all add: half_labelled_def)
  from mask_density_round_trip [OF ok cons small len, of 0 0 200] l0
    mask_density_round_trip [OF ok cons small len, of 0 1 200] l1
  show ?thesis using ok cons by simp
qed

section \<open>Update kernel: counts and rounded means\<close>

lemma component_simps:
  "component W img 0 p = int (fst p)"
  "component W img (Suc 0) p = int (snd p)"
  "component W img 2 p = uint (img ! (3 * (W * fst p + snd p)))"
  "component W img 3 p = uint (img ! (3 * (W * fst p + snd p) + 1))"
  "component W img 4 p = uint (img ! (3 * (W * fst p + snd p) + 2))"
  by (simp_all add: component_def)

lemma length_add_at: "length (add_at a q v) = length a"
  by (simp add: add_at_def)

lemma nth_add_at:
  "q' < length a \<Longrightarrow> add_at a q v ! q' = (if q' = q then i32 (a ! q' + v) else a ! q')"
  by (simp add: add_at_def nth_list_update)

lemma update_accumulate_skip:
  "label16 W asg p = 0xFFFF \<Longrightarrow> update_accumulate W img asg p st = st"
  by (cases st) (simp add: update_accumulate_def label16_def Let_def)

lemma update_accumulate_length:
  "length (fst (update_accumulate W img asg p st)) = length (fst st)
   \<and> length (snd (update_accumulate W img asg p st)) = length (snd st)"
  by (cases st) (simp add: update_accumulate_def Let_def length_add_at)

lemma update_accumulate_num:
  assumes "label16 W asg p \<noteq> 0xFFFF" and "k < length (fst st)"
  shows "fst (update_accumulate W img asg p st) ! k
       = (if label16 W asg p = k then i32 (fst st ! k + 1) else fst st ! k)"
proof -
  obtain n a where st: "st = (n, a)" by (cases st)
  have "fst (update_accumulate W img asg p st) = add_at n (label16 W asg p) 1"
    using assms(1) unfolding st by (simp add: update_accumulate_def label16_def Let_def)
  then show ?thesis using assms(2) st by (auto simp: nth_add_at)
qed

lemma update_accumulate_acc:
  assumes "label16 W asg p \<noteq> 0xFFFF" and "5 * k + d < length (snd st)" and "d < 5"
  shows "snd (update_accumulate W img asg p st) ! (5 * k + d)
       = (if label16 W asg p = k then i32 (snd st ! (5 * k + d) + component W img d p)
          else snd st ! (5 * k + d))"
proof -
  obtain n a where st: "st = (n, a)" by (cases st)
  let ?c = "label16 W asg p"
  let ?q = "5 * k + d"
  have q: "?q < length a" using assms(2) st by simp
  have eq: "snd (update_accumulate W img asg p st)
      = add_at (add_at (add_at (add_at (add_at a
              (5 * ?c + 0) (int (fst p)))
              (5 * ?c + 1) (int (snd p)))
              (5 * ?c + 2) (uint (img ! (3 * (W * fst p + snd p)))))
              (5 * ?c + 3) (uint (img ! (3 * (W * fst p + snd p) + 1))))
              (5 * ?c + 4) (uint (img ! (3 * (W * fst p + snd p) + 2)))"
    using assms(1) unfolding st by (simp add: update_accumulate_def label16_def Let_def)
  show ?thesis
  proof (cases "?c = k")
    case True
    consider "d = 0" | "d = 1" | "d = 2" | "d = 3" | "d = 4" using assms(3) by linarith
    then show ?thesis
      using True q unfolding eq
      by cases (simp_all add: nth_add_at length_add_at component_simps st)
  next
    case False
    then have "?q \<noteq> 5 * ?c + 0" "?q \<noteq> 5 * ?c + 1" "?q \<noteq> 5 * ?c + 2" "?q \<noteq> 5 * ?c + 3"
      "?q \<noteq> 5 * ?c + 4"
      using assms(3) by presburger+
    with False q show ?thesis
      unfolding eq by (simp only: nth_add_at length_add_at if_False st snd_conv)
  qed
qed

lemma i32_add_right: "i32 (a + i32 b) = i32 (a + b)"
  using i32_add_left [of b a] by (simp add: add.commute)

lemma i32_idem: "i32 (i32 a) = i32 a"
  using i32_add_left [of a 0] by simp

lemma accumulate_share:
  assumes K: "K \<le> 65535" and k: "k < K" and d: "d < 5"
    and valid: "\<forall>p \<in> set share. label_ok W K asg p"
    and len: "length (fst st) = K" "length (snd st) = K * 5"
  shows "i32 (fst (fold (update_accumulate W img asg) share st) ! k)
           = i32 (fst st ! k + int (length (filter (\<lambda>p. label16 W asg p = k) share)))
       \<and> i32 (snd (fold (update_accumulate W img asg) share st) ! (5 * k + d))
           = i32 (snd st ! (5 * k + d)
                  + sum_list (map (component W img d) (filter (\<lambda>p. label16 W asg p = k) share)))"
  using valid len
proof (induction share arbitrary: st)
  case Nil
  show ?case by simp
next
  case (Cons p ps)
  let ?st' = "update_accumulate W img asg p st"
  have len': "length (fst ?st') = K" "length (snd ?st') = K * 5"
    using Cons.prems(2,3) update_accumulate_length [of W img asg p st] by simp_all
  have v': "\<forall>p \<in> set ps. label_ok W K asg p" using Cons.prems(1) by simp
  note IH = Cons.IH [OF v' len']
  have q: "5 * k + d < K * 5" using k d by simp
  show ?case
  proof (cases "label16 W asg p = 0xFFFF")
    case True
    then have "label16 W asg p \<noteq> k" using K k by simp
    with True IH show ?thesis by (simp add: update_accumulate_skip)
  next
    case False
    have n: "fst ?st' ! k = (if label16 W asg p = k then i32 (fst st ! k + 1) else fst st ! k)"
      using False k Cons.prems(2) by (intro update_accumulate_num) simp_all
    have a: "snd ?st' ! (5 * k + d)
        = (if label16 W asg p = k then i32 (snd st ! (5 * k + d) + component W img d p)
           else snd st ! (5 * k + d))"
      using False q d Cons.prems(3) by (intro update_accumulate_acc) simp_all
    show ?thesis
    proof (cases "label16 W asg p = k")
      case True
      with IH n a show ?thesis by (simp add: i32_add_left add.assoc)
    next
      case False
      with IH n a show ?thesis by simp
    qed
  qed
qed

lemma fold_add_at:
  assumes "distinct qs" and "q < length a"
  shows "fold (\<lambda>q a. add_at a q (l ! q)) qs a ! q
       = (if q \<in> set qs then i32 (a ! q + l ! q) else a ! q)"
  using assms
proof (induction qs arbitrary: a)
  case Nil
  show ?case by simp
next
  case (Cons x xs)
  have "q < length (add_at a x (l ! x))" using Cons.prems(2) by (simp add: length_add_at)
  with Cons have "fold (\<lambda>q a. add_at a q (l ! q)) xs (add_at a x (l ! x)) ! q
      = (if q \<in> set xs then i32 (add_at a x (l ! x) ! q + l ! q) else add_at a x (l ! x) ! q)"
    by simp
  then show ?case using Cons.prems by (auto simp: nth_add_at)
qed

lemma length_fold_add_at: "length (fold (\<lambda>q a. add_at a q (l ! q)) qs a) = length a"
  by (induction qs arbitrary: a) (simp_all add: length_add_at)

lemma merge_cluster_parts:
  "fst (merge_cluster local k st) = add_at (fst st) k (fst local ! k)"
  "snd (merge_cluster local k st)
     = fold (\<lambda>dim acc. add_at acc (5 * k + dim) (snd local ! (5 * k + dim))) [0..<5] (snd st)"
  by (cases st; simp add: merge_cluster_def Let_def)+

lemma merge_worker_fst:
  "fst (fold (merge_cluster local) ks st) = fold (\<lambda>k a. add_at a k (fst local ! k)) ks (fst st)"
  by (induction ks arbitrary: st) (simp_all add: merge_cluster_parts)

lemma merge_worker_snd:
  "snd (fold (merge_cluster local) ks st)
     = fold (\<lambda>k. fold (\<lambda>dim acc. add_at acc (5 * k + dim) (snd local ! (5 * k + dim))) [0..<5]) ks (snd st)"
  by (induction ks arbitrary: st) (simp_all add: merge_cluster_parts)

lemma merge_worker_result:
  assumes "length (fst st) = K" "length (snd st) = K * 5"
  shows "length (fst (merge_worker K local st)) = K \<and> length (snd (merge_worker K local st)) = K * 5
       \<and> (\<forall>k<K. fst (merge_worker K local st) ! k = i32 (fst st ! k + fst local ! k))
       \<and> (\<forall>q<K * 5. snd (merge_worker K local st) ! q = i32 (snd st ! q + snd local ! q))"
proof -
  have f: "fst (merge_worker K local st) = fold (\<lambda>k a. add_at a k (fst local ! k)) [0..<K] (fst st)"
    by (simp add: merge_worker_def merge_worker_fst)
  have "snd (merge_worker K local st)
      = fold (\<lambda>k. fold (\<lambda>dim. (\<lambda>q acc. add_at acc q (snd local ! q)) (5 * k + dim)) [0..<5])
          [0..<K] (snd st)"
    by (simp add: merge_worker_def merge_worker_snd)
  also have "\<dots> = fold (\<lambda>q acc. add_at acc q (snd local ! q)) [0..<K * 5] (snd st)"
    by (rule fold_flat)
  finally have s: "snd (merge_worker K local st)
      = fold (\<lambda>q acc. add_at acc q (snd local ! q)) [0..<K * 5] (snd st)" .
  show ?thesis
    unfolding f s using assms by (simp add: fold_add_at length_fold_add_at)
qed

lemma worker_sums_result:
  assumes K: "K \<le> 65535" and k: "k < K" and d: "d < 5"
    and valid: "\<forall>p \<in> set share. label_ok W K asg p"
  shows "i32 (fst (worker_sums W K img asg share) ! k)
           = i32 (int (length (filter (\<lambda>p. label16 W asg p = k) share)))"
    and "i32 (snd (worker_sums W K img asg share) ! (5 * k + d))
           = i32 (sum_list (map (component W img d) (filter (\<lambda>p. label16 W asg p = k) share)))"
    and "length (fst (worker_sums W K img asg share)) = K"
    and "length (snd (worker_sums W K img asg share)) = K * 5"
proof -
  have q: "5 * k + d < K * 5" using k d by simp
  from accumulate_share [OF K k d valid, of "(replicate K 0, replicate (K * 5) 0)" img]
  show "i32 (fst (worker_sums W K img asg share) ! k)
           = i32 (int (length (filter (\<lambda>p. label16 W asg p = k) share)))"
    and "i32 (snd (worker_sums W K img asg share) ! (5 * k + d))
           = i32 (sum_list (map (component W img d) (filter (\<lambda>p. label16 W asg p = k) share)))"
    using k q by (simp_all add: worker_sums_def)
  have "length (fst (fold (update_accumulate W img asg) share st)) = length (fst st)
      \<and> length (snd (fold (update_accumulate W img asg) share st)) = length (snd st)" for st
    by (induction share arbitrary: st) (simp_all add: update_accumulate_length)
  from this [of "(replicate K 0, replicate (K * 5) 0)"]
  show "length (fst (worker_sums W K img asg share)) = K"
    and "length (snd (worker_sums W K img asg share)) = K * 5"
    by (simp_all add: worker_sums_def)
qed

lemma totals_result:
  assumes K: "K \<le> 65535" and k: "k < K" and d: "d < 5"
    and valid: "\<forall>p \<in> set (concat workers). label_ok W K asg p"
    and len: "length (fst st) = K" "length (snd st) = K * 5"
  shows "i32 (fst (fold (\<lambda>share. merge_worker K (worker_sums W K img asg share)) workers st) ! k)
           = i32 (fst st ! k + int (length (filter (\<lambda>p. label16 W asg p = k) (concat workers))))
       \<and> i32 (snd (fold (\<lambda>share. merge_worker K (worker_sums W K img asg share)) workers st)
                ! (5 * k + d))
           = i32 (snd st ! (5 * k + d)
                  + sum_list (map (component W img d)
                               (filter (\<lambda>p. label16 W asg p = k) (concat workers))))"
  using valid len
proof (induction workers arbitrary: st)
  case Nil
  show ?case by simp
next
  case (Cons share ws)
  let ?l = "worker_sums W K img asg share"
  let ?st' = "merge_worker K ?l st"
  have q: "5 * k + d < K * 5" using k d by simp
  have vs: "\<forall>p \<in> set share. label_ok W K asg p" and vw: "\<forall>p \<in> set (concat ws). label_ok W K asg p"
    using Cons.prems(1) by simp_all
  note m = merge_worker_result [OF Cons.prems(2,3), of ?l]
  note w = worker_sums_result [OF K k d vs, of img]
  from m have len': "length (fst ?st') = K" "length (snd ?st') = K * 5" by simp_all
  note IH = Cons.IH [OF vw len']
  have n: "fst ?st' ! k = i32 (fst st ! k + fst ?l ! k)" using m k by simp
  have a: "snd ?st' ! (5 * k + d) = i32 (snd st ! (5 * k + d) + snd ?l ! (5 * k + d))"
    using m q by simp
  have "i32 (fst ?st' ! k + x) = i32 (fst st ! k + int (length (filter (\<lambda>p. label16 W asg p = k) share)) + x)" for x
  proof -
    have "i32 (fst ?st' ! k + x) = i32 (fst st ! k + i32 (fst ?l ! k) + x)"
      unfolding n by (metis i32_add_left i32_add_right)
    then show ?thesis unfolding w(1) by (metis i32_add_left i32_add_right)
  qed
  moreover
  have "i32 (snd ?st' ! (5 * k + d) + x) = i32 (snd st ! (5 * k + d)
      + sum_list (map (component W img d) (filter (\<lambda>p. label16 W asg p = k) share)) + x)" for x
  proof -
    have "i32 (snd ?st' ! (5 * k + d) + x) = i32 (snd st ! (5 * k + d) + i32 (snd ?l ! (5 * k + d)) + x)"
      unfolding a by (metis i32_add_left i32_add_right)
    then show ?thesis unfolding w(2) by (metis i32_add_left i32_add_right)
  qed
  ultimately show ?case using IH by (simp add: add.assoc)
qed

lemma fold_update_each:
  assumes "distinct ks" and "k < length xs"
  shows "fold (\<lambda>k xs. xs[k := g k (xs ! k)]) ks xs ! k
       = (if k \<in> set ks then g k (xs ! k) else xs ! k)"
  using assms
proof (induction ks arbitrary: xs)
  case Nil
  show ?case by simp
next
  case (Cons x ks)
  then have "fold (\<lambda>k xs. xs[k := g k (xs ! k)]) ks (xs[x := g x (xs ! x)]) ! k
      = (if k \<in> set ks then g k (xs[x := g x (xs ! x)] ! k) else xs[x := g x (xs ! x)] ! k)"
    by simp
  then show ?case using Cons.prems by (cases "k = x") (auto simp: nth_list_update)
qed

lemma in_range_normal:
  assumes "i32 v = i32 t" and "0 \<le> t" "t < 2147483648" and "i32 v = v"
  shows "v = t"
  using assms by (simp add: i32_id)

lemma totals_normal:
  assumes "length (fst st) = K" "length (snd st) = K * 5" and "k < K" "q < K * 5"
    and "i32 (fst st ! k) = fst st ! k" "i32 (snd st ! q) = snd st ! q"
  shows "i32 (fst (fold (\<lambda>share. merge_worker K (f share)) workers st) ! k)
           = fst (fold (\<lambda>share. merge_worker K (f share)) workers st) ! k
       \<and> i32 (snd (fold (\<lambda>share. merge_worker K (f share)) workers st) ! q)
           = snd (fold (\<lambda>share. merge_worker K (f share)) workers st) ! q"
  using assms(1,2,5,6)
proof (induction workers arbitrary: st)
  case Nil
  then show ?case by simp
next
  case (Cons w ws)
  note m = merge_worker_result [OF Cons.prems(1,2), of "f w"]
  show ?case
    using m assms(3,4) by (simp add: Cons.IH i32_idem)
qed

lemma perm_filter_length:
  assumes "mset xs = mset ys"
  shows "length (filter P xs) = length (filter P ys)"
proof -
  have "mset (filter P xs) = mset (filter P ys)" using assms by simp
  then show ?thesis by (rule mset_eq_length)
qed

lemma perm_filter_sum:
  fixes f :: "'a \<Rightarrow> int"
  assumes "mset xs = mset ys"
  shows "sum_list (map f (filter P xs)) = sum_list (map f (filter P ys))"
proof -
  have "mset (map f (filter P xs)) = mset (map f (filter P ys))" using assms by simp
  then show ?thesis by (metis sum_mset_sum_list)
qed

lemma sum_list_bounds:
  fixes f :: "'a \<Rightarrow> int"
  assumes "\<And>x. x \<in> set xs \<Longrightarrow> 0 \<le> f x \<and> f x \<le> c"
  shows "0 \<le> sum_list (map f xs) \<and> sum_list (map f xs) \<le> c * int (length xs)"
  using assms
proof (induction xs)
  case Nil
  show ?case by simp
next
  case (Cons x xs)
  then have "0 \<le> f x \<and> f x \<le> c" "0 \<le> sum_list (map f xs) \<and> sum_list (map f xs) \<le> c * int (length xs)"
    by simp_all
  then show ?case by (simp add: algebra_simps)
qed

lemma round_int_div:
  assumes "0 \<le> t" "0 < n"
  shows "round_int t n = (t + n div 2) div n"
  using assms by (simp add: round_int_def c_div_def sgn_if)

lemma round_int_bounds:
  assumes "0 \<le> t" "0 < n" "t \<le> m * n"
  shows "0 \<le> round_int t n \<and> round_int t n \<le> m"
proof -
  have "(t + n div 2) div n \<le> (m * n + n div 2) div n"
    using assms by (intro zdiv_mono1) simp_all
  also have "\<dots> = m + (n div 2) div n" using assms(2) by simp
  also have "(n div 2) div n = 0" using assms(2) by (intro div_pos_pos_trivial) simp_all
  finally have "(t + n div 2) div n \<le> m" by simp
  moreover have "0 \<le> (t + n div 2) div n" using assms by (intro pos_imp_zdiv_nonneg_iff [THEN iffD2]) simp_all
  ultimately show ?thesis using assms by (simp add: round_int_div)
qed

text \<open>
  \<open>round_int\<close> is the mean rounded to the nearest integer, a tie going up: the
  remainder \<open>t - q * n\<close> lies in \<open>[-n/2, n/2)\<close>.
\<close>

lemma round_int_nearest:
  assumes "0 \<le> t" "0 < n"
  shows "- n \<le> 2 * (t - round_int t n * n) \<and> 2 * (t - round_int t n * n) < n"
proof -
  define h where "h = n div 2"
  define q where "q = (t + h) div n"
  define r where "r = q * n"
  have "t + h = r + (t + h) mod n" by (simp add: q_def r_def)
  moreover have "0 \<le> (t + h) mod n" "(t + h) mod n < n" using assms(2) by simp_all
  ultimately have 1: "r \<le> t + h" "t + h < r + n" by linarith+
  have 2: "2 * h \<le> n" "n < 2 * h + 2" unfolding h_def by presburger+
  have "- n \<le> 2 * t - 2 * r" "2 * t - 2 * r < n" using 1 2 by linarith+
  then have "- n \<le> 2 * (t - r) \<and> 2 * (t - r) < n" by (simp add: algebra_simps)
  then show ?thesis
    unfolding round_int_div [OF assms] r_def q_def h_def .
qed

lemma update_cluster_as_update:
  "update_cluster num acc k clusters =
     clusters[k := (if num ! k = 0 then (clusters ! k)\<lparr>num_members := word_of_int (num ! k)\<rparr>
        else (clusters ! k)\<lparr>num_members := word_of_int (num ! k),
               cl_y := word_of_int (round_int (acc ! (5 * k + 0)) (num ! k)),
               cl_x := word_of_int (round_int (acc ! (5 * k + 1)) (num ! k)),
               cl_r := word_of_int (round_int (acc ! (5 * k + 2)) (num ! k)),
               cl_g := word_of_int (round_int (acc ! (5 * k + 3)) (num ! k)),
               cl_b := word_of_int (round_int (acc ! (5 * k + 4)) (num ! k))\<rparr>)]"
  by (simp add: update_cluster_def Let_def)

lemma component_bounds:
  assumes "fst p < H" "snd p < W" "d < 5"
  shows "0 \<le> component W img d p
       \<and> component W img d p \<le> [int H - 1, int W - 1, 255, 255, 255] ! d"
proof -
  consider "d = 0" | "d = 1" | "d = 2" | "d = 3" | "d = 4" using assms(3) by linarith
  then show ?thesis
    using assms(1,2) uint8_range [of "img ! (3 * (W * fst p + snd p))"]
      uint8_range [of "img ! (3 * (W * fst p + snd p) + 1)"]
      uint8_range [of "img ! (3 * (W * fst p + snd p) + 2)"]
    by cases (simp_all add: component_simps)
qed

lemma sint_word16: "0 \<le> v \<Longrightarrow> v < 32768 \<Longrightarrow> sint (word_of_int v :: 16 word) = v"
  by (simp add: sint_sbintrunc' signed_take_bit_int_eq_self)

lemma uint_word8: "0 \<le> v \<Longrightarrow> v \<le> 255 \<Longrightarrow> uint (word_of_int v :: 8 word) = v"
  by (simp add: uint_word_of_int)

lemma unat_word32: "n < 2 ^ 32 \<Longrightarrow> unat (word_of_nat n :: 32 word) = n"
  by (simp add: unat_of_nat)

lemma update_totals:
  assumes pre: "update_pre H W K img asg workers clusters" and k: "k < K" and d: "d < 5"
  defines "totals \<equiv> fold (\<lambda>share. merge_worker K (worker_sums W K img asg share)) workers
                       (replicate K 0, replicate (K * 5) 0)"
  shows "fst totals ! k = int (length (members H W asg k))"
    and "snd totals ! (5 * k + d) = member_total H W img asg d k"
    and "0 \<le> member_total H W img asg d k"
    and "member_total H W img asg d k \<le> [int H - 1, int W - 1, 255, 255, 255] ! d * int (length (members H W asg k))"
proof -
  let ?px = "List.product [0..<H] [0..<W]"
  let ?P = "\<lambda>p. label16 W asg p = k"
  let ?c = "[int H - 1, int W - 1, 255, 255, 255] ! d"
  from pre have K: "K \<le> 65535" and la: "length asg = H * W"
    and small: "H * W * (H + W + 255) < 2 ^ 31"
    and labs: "list_all (\<lambda>l. unat (ucast l :: 16 word) < K \<or> unat (ucast l :: 16 word) = 0xFFFF) asg"
    and perm: "mset (concat workers) = mset ?px"
    by (simp_all add: update_pre_def)
  have q: "5 * k + d < K * 5" using k d by simp
  have valid_px: "label_ok W K asg p" if "p \<in> set ?px" for p
  proof -
    from that have "fst p < H" "snd p < W" by auto
    then have "W * fst p + snd p < H * W" by (rule pixel_index_less)
    then have "asg ! (W * fst p + snd p) \<in> set asg" using la by simp
    with labs show ?thesis by (simp add: list_all_iff label_ok_def label16_def)
  qed
  have "set (concat workers) = set ?px" using perm by (rule mset_eq_setD)
  then have valid: "\<forall>p \<in> set (concat workers). label_ok W K asg p" using valid_px by blast
  have cnt: "length (filter ?P (concat workers)) = length (members H W asg k)"
    unfolding members_def using perm by (rule perm_filter_length)
  have tot: "sum_list (map (component W img d) (filter ?P (concat workers))) = member_total H W img asg d k"
    unfolding member_total_def members_def using perm by (rule perm_filter_sum)
  from totals_result [OF K k d valid, of "(replicate K 0, replicate (K * 5) 0)" img]
  have r: "i32 (fst totals ! k) = i32 (int (length (members H W asg k)))"
    "i32 (snd totals ! (5 * k + d)) = i32 (member_total H W img asg d k)"
    using k q by (simp_all add: totals_def cnt tot)
  from totals_normal [of "(replicate K 0, replicate (K * 5) 0)" K k "5 * k + d"
      "worker_sums W K img asg" workers]
  have nrm: "i32 (fst totals ! k) = fst totals ! k" "i32 (snd totals ! (5 * k + d)) = snd totals ! (5 * k + d)"
    using k q by (simp_all add: totals_def i32_def)
  have nle: "length (members H W asg k) \<le> H * W"
    unfolding members_def using length_filter_le [of ?P ?px] by simp
  have cb: "0 \<le> component W img d p \<and> component W img d p \<le> ?c" if "p \<in> set (members H W asg k)" for p
  proof -
    from that have "fst p < H" "snd p < W" by (auto simp: members_def)
    then show ?thesis using d by (rule component_bounds)
  qed
  from sum_list_bounds [of "members H W asg k" "component W img d" ?c, OF cb]
  show t0: "0 \<le> member_total H W img asg d k"
    and t1: "member_total H W img asg d k \<le> ?c * int (length (members H W asg k))"
    by (simp_all add: member_total_def)
  have c: "0 \<le> ?c \<or> length (members H W asg k) = 0" "?c \<le> int (H + W + 255)"
  proof -
    consider "d = 0" | "d = 1" | "d = 2" | "d = 3" | "d = 4" using d by linarith
    then show "?c \<le> int (H + W + 255)" by cases simp_all
    show "0 \<le> ?c \<or> length (members H W asg k) = 0"
    proof (cases "members H W asg k")
      case Nil
      then show ?thesis by simp
    next
      case (Cons p ps)
      then have "p \<in> set (members H W asg k)" by simp
      from cb [OF this] show ?thesis by linarith
    qed
  qed
  have big: "int (H * W) * int (H + W + 255) < 2147483648"
  proof -
    have "int (H * W * (H + W + 255)) < int (2 ^ 31)" using small by (simp only: of_nat_less_iff)
    then show ?thesis by simp
  qed
  have nle_int: "int (length (members H W asg k)) \<le> int (H * W)"
    using nle by (simp only: of_nat_le_iff)
  have n_small: "int (length (members H W asg k)) < 2147483648"
  proof -
    note nle_int
    also have "\<dots> \<le> int (H * W) * int (H + W + 255)"
      using mult_left_mono [of 1 "int (H + W + 255)" "int (H * W)"] by simp
    finally show ?thesis using big by linarith
  qed
  have t_small: "member_total H W img asg d k < 2147483648"
  proof (cases "length (members H W asg k) = 0")
    case True
    then show ?thesis by (simp add: member_total_def)
  next
    case False
    with c have c0: "0 \<le> ?c" by simp
    have "?c * int (length (members H W asg k)) \<le> int (H + W + 255) * int (H * W)"
      using c(2) c0 nle_int by (intro mult_mono) simp_all
    with t1 big show ?thesis by (simp add: mult.commute)
  qed
  show "fst totals ! k = int (length (members H W asg k))"
    using r(1) nrm(1) n_small by (simp add: i32_id)
  show "snd totals ! (5 * k + d) = member_total H W img asg d k"
    using r(2) nrm(2) t0 t_small by (simp add: i32_id)
qed

lemma members_card:
  "length (members H W asg k) = card {p. fst p < H \<and> snd p < W \<and> label16 W asg p = k}"
proof -
  have "distinct (members H W asg k)"
    by (simp add: members_def distinct_product)
  moreover have "set (members H W asg k) = {p. fst p < H \<and> snd p < W \<and> label16 W asg p = k}"
    by (auto simp: members_def)
  ultimately show ?thesis by (metis distinct_card)
qed

text \<open>One worker holding every pixel runs the two nested loops of lines 160 and 161.\<close>

lemma sequential_share:
  "fold (update_accumulate W img asg) (List.product [0..<H] [0..<W]) st
     = fold (\<lambda>i. fold (\<lambda>j. update_accumulate W img asg (i, j)) [0..<W]) [0..<H] st"
  by (simp add: fold_nested)

text \<open>
  Claim C2. For every \<open>k\<close> in \<open>[0, K)\<close> the kernel sets \<open>num_members\<close> to the number of
  pixels whose label is \<open>k\<close>. When that number is positive, \<open>y\<close>, \<open>x\<close>, \<open>r\<close>, \<open>g\<close>, \<open>b\<close>
  become \<open>round_int\<close> of the members' sums of row, column, red, green and blue by the
  number; when it is zero they keep their values. \<open>number\<close> is never touched. This holds
  for every distribution of the pixels among workers.
\<close>

theorem update_clusters_means:
  assumes pre: "update_pre H W K img asg workers clusters" and k: "k < K"
  shows "unat (num_members (slic_update_clusters W K img asg workers clusters ! k))
           = length (members H W asg k)
       \<and> length (members H W asg k) = card {p. fst p < H \<and> snd p < W \<and> label16 W asg p = k}
       \<and> number (slic_update_clusters W K img asg workers clusters ! k) = number (clusters ! k)
       \<and> (0 < length (members H W asg k) \<longrightarrow>
            sint (cl_y (slic_update_clusters W K img asg workers clusters ! k))
              = round_int (member_total H W img asg 0 k) (int (length (members H W asg k)))
          \<and> sint (cl_x (slic_update_clusters W K img asg workers clusters ! k))
              = round_int (member_total H W img asg 1 k) (int (length (members H W asg k)))
          \<and> uint (cl_r (slic_update_clusters W K img asg workers clusters ! k))
              = round_int (member_total H W img asg 2 k) (int (length (members H W asg k)))
          \<and> uint (cl_g (slic_update_clusters W K img asg workers clusters ! k))
              = round_int (member_total H W img asg 3 k) (int (length (members H W asg k)))
          \<and> uint (cl_b (slic_update_clusters W K img asg workers clusters ! k))
              = round_int (member_total H W img asg 4 k) (int (length (members H W asg k))))
       \<and> (length (members H W asg k) = 0 \<longrightarrow>
            cl_y (slic_update_clusters W K img asg workers clusters ! k) = cl_y (clusters ! k)
          \<and> cl_x (slic_update_clusters W K img asg workers clusters ! k) = cl_x (clusters ! k)
          \<and> cl_r (slic_update_clusters W K img asg workers clusters ! k) = cl_r (clusters ! k)
          \<and> cl_g (slic_update_clusters W K img asg workers clusters ! k) = cl_g (clusters ! k)
          \<and> cl_b (slic_update_clusters W K img asg workers clusters ! k) = cl_b (clusters ! k))"
proof -
  define totals where "totals = fold (\<lambda>share. merge_worker K (worker_sums W K img asg share)) workers
                       (replicate K 0, replicate (K * 5) 0)"
  define n where "n = length (members H W asg k)"
  define c' where "c' = slic_update_clusters W K img asg workers clusters ! k"
  let ?c = "clusters ! k"
  from pre have lc: "length clusters = K" and HW: "H \<le> 32767" "W \<le> 32767"
    and small: "H * W * (H + W + 255) < 2 ^ 31"
    by (simp_all add: update_pre_def)
  note t = update_totals [OF pre k, folded totals_def n_def]
  have num: "fst totals ! k = int n" using t(1) [of 0] by simp
  have acc: "snd totals ! (5 * k + d) = member_total H W img asg d k" if "d < 5" for d
    using t(2) [OF that] .
  have tb: "0 \<le> member_total H W img asg d k
      \<and> member_total H W img asg d k \<le> [int H - 1, int W - 1, 255, 255, 255] ! d * int n" if "d < 5" for d
    using t(3,4) [OF that] by simp
  have c'_eq: "c' = (if fst totals ! k = 0 then ?c\<lparr>num_members := word_of_int (fst totals ! k)\<rparr>
        else ?c\<lparr>num_members := word_of_int (fst totals ! k),
               cl_y := word_of_int (round_int (snd totals ! (5 * k + 0)) (fst totals ! k)),
               cl_x := word_of_int (round_int (snd totals ! (5 * k + 1)) (fst totals ! k)),
               cl_r := word_of_int (round_int (snd totals ! (5 * k + 2)) (fst totals ! k)),
               cl_g := word_of_int (round_int (snd totals ! (5 * k + 3)) (fst totals ! k)),
               cl_b := word_of_int (round_int (snd totals ! (5 * k + 4)) (fst totals ! k))\<rparr>)"
    unfolding c'_def slic_update_clusters_def Let_def totals_def [symmetric] update_cluster_as_update
    using k lc by (subst fold_update_each) simp_all
  have n32: "n < 2 ^ 32"
  proof -
    have "n \<le> H * W"
      unfolding n_def members_def using length_filter_le [of _ "List.product [0..<H] [0..<W]"] by simp
    also have "\<dots> \<le> H * W * (H + W + 255)" by simp
    finally show ?thesis using small by simp
  qed
  have 1: "unat (num_members c') = n"
    unfolding c'_eq num using unat_word32 [OF n32] by simp
  have 2: "number c' = number ?c"
    unfolding c'_eq by simp
  have r: "0 \<le> round_int (member_total H W img asg d k) (int n)
      \<and> round_int (member_total H W img asg d k) (int n) \<le> [int H - 1, int W - 1, 255, 255, 255] ! d"
    if "d < 5" "0 < n" for d
    using tb [OF that(1)] that(2) by (intro round_int_bounds) simp_all
  have 3: "sint (cl_y c') = round_int (member_total H W img asg 0 k) (int n)
      \<and> sint (cl_x c') = round_int (member_total H W img asg 1 k) (int n)
      \<and> uint (cl_r c') = round_int (member_total H W img asg 2 k) (int n)
      \<and> uint (cl_g c') = round_int (member_total H W img asg 3 k) (int n)
      \<and> uint (cl_b c') = round_int (member_total H W img asg 4 k) (int n)" if pos: "0 < n"
  proof -
    have e: "c' = ?c\<lparr>num_members := word_of_int (int n),
               cl_y := word_of_int (round_int (member_total H W img asg 0 k) (int n)),
               cl_x := word_of_int (round_int (member_total H W img asg 1 k) (int n)),
               cl_r := word_of_int (round_int (member_total H W img asg 2 k) (int n)),
               cl_g := word_of_int (round_int (member_total H W img asg 3 k) (int n)),
               cl_b := word_of_int (round_int (member_total H W img asg 4 k) (int n))\<rparr>"
      unfolding c'_eq num using pos acc [of 0] acc [of 1] acc [of 2] acc [of 3] acc [of 4] by simp
    show ?thesis
      unfolding e using r [of 0] r [of 1] r [of 2] r [of 3] r [of 4] pos HW
      by (simp add: sint_word16 uint_word8)
  qed
  have 4: "cl_y c' = cl_y ?c \<and> cl_x c' = cl_x ?c \<and> cl_r c' = cl_r ?c \<and> cl_g c' = cl_g ?c
      \<and> cl_b c' = cl_b ?c" if "n = 0"
    unfolding c'_eq num using that by simp
  from 1 2 3 4 members_card [of H W asg k] show ?thesis
    unfolding n_def c'_def by simp
qed

lemma product22: "List.product [0..<2] [0..<2] = [(0, 0), (0, 1), (1, 0), (1, 1)]"
  by (simp add: upt_rec)

lemma update_pre_example: "update_pre 2 2 3 img4 lab4 shares3 cl3"
  by (simp add: update_pre_def product22 img4_def lab4_def cl3_def shares3_def)

lemma members_example:
  "members 2 2 lab4 0 = [(0, 0), (0, 1)]" "members 2 2 lab4 2 = []"
  by (simp_all add: members_def product22 label16_def lab4_def)

lemma total_example:
  "member_total 2 2 img4 lab4 0 0 = 0" "member_total 2 2 img4 lab4 (Suc 0) 0 = 1" "member_total 2 2 img4 lab4 2 0 = 30"
  "member_total 2 2 img4 lab4 3 0 = 50" "member_total 2 2 img4 lab4 4 0 = 70"
  by (simp_all add: member_total_def members_example component_def img4_def)

theorem update_clusters_means_witness:
  "update_pre 2 2 3 img4 lab4 shares3 cl3 \<and> (0 :: nat) < 3 \<and> (2 :: nat) < 3
   \<and> unat (num_members (slic_update_clusters 2 3 img4 lab4 shares3 cl3 ! 0)) = 2
   \<and> sint (cl_y (slic_update_clusters 2 3 img4 lab4 shares3 cl3 ! 0)) = 0
   \<and> sint (cl_x (slic_update_clusters 2 3 img4 lab4 shares3 cl3 ! 0)) = 1
   \<and> uint (cl_r (slic_update_clusters 2 3 img4 lab4 shares3 cl3 ! 0)) = 15
   \<and> uint (cl_g (slic_update_clusters 2 3 img4 lab4 shares3 cl3 ! 0)) = 25
   \<and> uint (cl_b (slic_update_clusters 2 3 img4 lab4 shares3 cl3 ! 0)) = 35
   \<and> unat (num_members (slic_update_clusters 2 3 img4 lab4 shares3 cl3 ! 2)) = 0
   \<and> cl_y (slic_update_clusters 2 3 img4 lab4 shares3 cl3 ! 2) = 9
   \<and> cl_b (slic_update_clusters 2 3 img4 lab4 shares3 cl3 ! 2) = 0"
proof -
  have r: "round_int 0 2 = 0" "round_int 1 2 = 1" "round_int 30 2 = 15" "round_int 50 2 = 25"
    "round_int 70 2 = 35"
    by (simp_all add: round_int_def c_div_def)
  have c: "cl_y (cl3 ! 2) = 9" "cl_b (cl3 ! 2) = 0"
    by (simp_all add: cl3_def centroid_def)
  from update_clusters_means [OF update_pre_example, of 0]
    update_clusters_means [OF update_pre_example, of 2]
  show ?thesis
    by (simp add: update_pre_example members_example total_example r c)
qed

section \<open>Assignment kernel: the label is a minimiser\<close>



















lemma code_score_range:
  "0 \<le> code_score img W q cache c i j \<and> code_score img W q cache c i j < 65536"
  by (simp add: code_score_def)









end
